theory Spec2Isabelle
  imports Main "HOL-Library.Word"
begin

section \<open>Data model (chatServer.h)\<close>

text \<open>
  The server keeps its clients in a doubly-linked list of \<open>conn_t\<close>; every connection
  owns a doubly-linked list of \<open>msg_t\<close> reached through \<open>write_msg_head\<close> and
  \<open>write_msg_tail\<close>. Both lists are modelled by HOL lists in link order. Every path of
  the source sets head and tail together (both \<open>NULL\<close> in \<open>addConn\<close>,
  \<open>freeMessagesInQueue\<close> and on a complete drain, both non-\<open>NULL\<close> after
  \<open>addMsg\<close>), so "tail is \<open>NULL\<close>" and "head is \<open>NULL\<close>" are both "the list is empty".

  \<open>writeToClient\<close> frees nodes that the connection still points to when a later write
  fails. A queue cell is therefore either a live message or a freed node; touching a
  freed node again (reading it for \<open>write\<close>, freeing it a second time) is the fault
  \<open>UseAfterFree\<close>. Reading past the end of a buffer is the fault \<open>OutOfBounds\<close>.

  C \<open>int\<close> descriptors and counters are HOL integers (no arithmetic on them can overflow
  here: they are compared, and \<open>nready\<close> is decremented at most twice per descriptor);
  \<open>nr_conns\<close> is an \<open>unsigned int\<close> that wraps, a 32-bit word. An \<open>fd_set\<close> is the set
  of descriptors whose bit is set; \<open>FD_SET\<close>, \<open>FD_CLR\<close> and \<open>FD_ISSET\<close> are insertion,
  deletion and membership. The pool is passed by value and returned updated: the
  \<open>pool == NULL\<close> guards of the source cannot fire on the one pool \<open>main\<close> owns. Output to
  \<open>stdout\<close>/\<open>stderr\<close> is not modelled; \<open>close\<close> and \<open>write\<close> calls are recorded as
  events, in the order they are issued.
\<close>

type_synonym byte = "8 word"

record msg =
  message :: "byte list"
  msg_size :: int

datatype msg_node = Live msg | Freed

record conn =
  fd :: int
  write_msg_queue :: "msg_node list"

record conn_pool =
  maxfd :: int
  nready :: int
  read_set :: "int set"
  ready_read_set :: "int set"
  write_set :: "int set"
  ready_write_set :: "int set"
  conn_head :: "conn list"
  nr_conns :: "32 word"

datatype fault = UseAfterFree | OutOfBounds

datatype event = Close int | Write int "byte list" int

definition BUFFER_SIZE :: nat where
  "BUFFER_SIZE = 4096"

section \<open>The transform: capitalizeMessage\<close>

text \<open>
  \<open>toupper\<close> of the C library in the "C" locale (the program never calls
  \<open>setlocale\<close>): the bytes \<open>'a'..'z'\<close> (97..122) move down by 32, every other byte is
  returned as it is.
\<close>

definition toupper :: "byte \<Rightarrow> byte" where
  "toupper c = (if 97 \<le> c \<and> c \<le> 122 then c - 32 else c)"

definition isalpha :: "byte \<Rightarrow> bool" where
  "isalpha c = ((65 \<le> c \<and> c \<le> 90) \<or> (97 \<le> c \<and> c \<le> 122))"

text \<open>
  \<open>for (int i = 0; i < length; ++i) message[i] = (char)toupper((unsigned char)message[i]);\<close>
  An index outside the buffer is an out-of-bounds access.
\<close>

function capitalizeMessage_loop :: "byte list \<Rightarrow> int \<Rightarrow> int \<Rightarrow> fault + byte list" where
  "capitalizeMessage_loop buf i len =
     (if i < len then
        (if 0 \<le> i \<and> i < int (length buf)
         then capitalizeMessage_loop (buf[nat i := toupper (buf ! nat i)]) (i + 1) len
         else Inl OutOfBounds)
      else Inr buf)"
  by pat_completeness auto
termination
  by (relation "measure (\<lambda>(buf, i, len). nat (len - i))") auto

declare capitalizeMessage_loop.simps [simp del]

definition capitalizeMessage :: "byte list \<Rightarrow> int \<Rightarrow> fault + byte list" where
  "capitalizeMessage buf len = capitalizeMessage_loop buf 0 len"

section \<open>The connection pool\<close>

text \<open>\<open>initPool\<close>: \<open>maxfd = -1\<close>, nothing ready, all four descriptor sets zeroed, no connection.\<close>

definition initPool :: conn_pool where
  "initPool =
     \<lparr>maxfd = -1, nready = 0, read_set = {}, ready_read_set = {}, write_set = {},
      ready_write_set = {}, conn_head = [], nr_conns = 0\<rparr>"

text \<open>
  \<open>updateMaxFd\<close>: start from the welcome socket and walk the list, keeping the larger
  descriptor.
\<close>

fun updateMaxFd_loop :: "int \<Rightarrow> conn list \<Rightarrow> int" where
  "updateMaxFd_loop max_fd [] = max_fd"
| "updateMaxFd_loop max_fd (c # cs) =
     updateMaxFd_loop (if fd c > max_fd then fd c else max_fd) cs"

definition updateMaxFd :: "conn_pool \<Rightarrow> int \<Rightarrow> conn_pool" where
  "updateMaxFd pool welcome_socket =
     pool\<lparr>maxfd := updateMaxFd_loop welcome_socket (conn_head pool)\<rparr>"

text \<open>
  \<open>freeMessagesInQueue\<close>: walk the queue from the head, freeing every node, then reset
  head and tail. A node that was freed before is freed again and read for its \<open>next\<close>
  pointer.
\<close>

fun free_nodes :: "msg_node list \<Rightarrow> fault + unit" where
  "free_nodes [] = Inr ()"
| "free_nodes (Live m # rest) = free_nodes rest"
| "free_nodes (Freed # rest) = Inl UseAfterFree"

definition freeMessagesInQueue :: "conn \<Rightarrow> fault + conn" where
  "freeMessagesInQueue c =
     (case free_nodes (write_msg_queue c) of
        Inl f \<Rightarrow> Inl f
      | Inr u \<Rightarrow> Inr (c\<lparr>write_msg_queue := []\<rparr>))"

text \<open>
  \<open>addConn\<close>. The argument \<open>alloc\<close> says whether \<open>malloc\<close> returns a connection object.
  On failure the function closes the descriptor itself and returns \<open>-1\<close>; on success
  the new connection becomes the head of the list, its descriptor enters \<open>read_set\<close>
  and \<open>nr_conns\<close> is incremented. The result is the return value, the pool and the
  system calls issued.
\<close>

definition addConn :: "int \<Rightarrow> conn_pool \<Rightarrow> bool \<Rightarrow> int \<times> conn_pool \<times> event list" where
  "addConn sd pool alloc =
     (if \<not> alloc then (-1, pool, [Close sd])
      else (0,
            pool\<lparr>conn_head := \<lparr>fd = sd, write_msg_queue = []\<rparr> # conn_head pool,
                 read_set := insert sd (read_set pool),
                 nr_conns := nr_conns pool + 1\<rparr>,
            []))"

text \<open>
  The search loops of \<open>removeConn\<close> and \<open>writeToClient\<close> stop at the first connection
  whose descriptor is \<open>sd\<close>. \<open>find_conn\<close> returns the connections before it, the
  connection and the connections after it, or \<open>None\<close> when the loop runs off the list.
\<close>

fun find_conn :: "int \<Rightarrow> conn list \<Rightarrow> (conn list \<times> conn \<times> conn list) option" where
  "find_conn sd [] = None"
| "find_conn sd (c # cs) =
     (if fd c = sd then Some ([], c, cs)
      else (case find_conn sd cs of
              None \<Rightarrow> None
            | Some (before, temp, after) \<Rightarrow> Some (c # before, temp, after)))"

text \<open>
  \<open>removeConn\<close>: not found is \<open>-1\<close> with nothing touched. Otherwise the queue is freed,
  the node unlinked, the descriptor cleared from both sets and closed, and \<open>nr_conns\<close>
  decremented.
\<close>

definition removeConn :: "int \<Rightarrow> conn_pool \<Rightarrow> fault + (int \<times> conn_pool \<times> event list)" where
  "removeConn sd pool =
     (case find_conn sd (conn_head pool) of
        None \<Rightarrow> Inr (-1, pool, [])
      | Some (before, temp, after) \<Rightarrow>
          (case freeMessagesInQueue temp of
             Inl f \<Rightarrow> Inl f
           | Inr freed \<Rightarrow>
               Inr (0,
                    pool\<lparr>conn_head := before @ after,
                         read_set := read_set pool - {sd},
                         write_set := write_set pool - {sd},
                         nr_conns := nr_conns pool - 1\<rparr>,
                    [Close sd])))"

section \<open>Broadcast: createMessage and addMsg\<close>

text \<open>
  \<open>createMessage\<close> calls \<open>malloc\<close> twice; \<open>alloc\<close> gives the outcome of the node's
  allocation and of the payload's. Either failure returns \<open>NULL\<close> (\<open>None\<close>). On success
  \<open>len\<close> bytes are copied out of the buffer.
\<close>

definition createMessage :: "byte list \<Rightarrow> int \<Rightarrow> bool \<times> bool \<Rightarrow> fault + msg option" where
  "createMessage buffer len alloc =
     (if \<not> fst alloc then Inr None
      else if \<not> snd alloc then Inr None
      else if len < 0 \<or> int (length buffer) < len then Inl OutOfBounds
      else Inr (Some \<lparr>message = take (nat len) buffer, msg_size = len\<rparr>))"

text \<open>
  \<open>addMsg\<close> walks the connection list. \<open>allocs k\<close> is the allocation outcome of the
  \<open>k\<close>-th call of \<open>createMessage\<close> made by this broadcast (one call per connection
  that is not the sender). A failed creation skips the connection; otherwise the message
  is linked at the tail and the descriptor is set in \<open>write_set\<close>.
\<close>

fun addMsg_loop ::
  "int \<Rightarrow> byte list \<Rightarrow> int \<Rightarrow> (nat \<Rightarrow> bool \<times> bool) \<Rightarrow> nat \<Rightarrow> conn list \<Rightarrow> int set
     \<Rightarrow> fault + (conn list \<times> int set)" where
  "addMsg_loop sd buffer len allocs k [] ws = Inr ([], ws)"
| "addMsg_loop sd buffer len allocs k (c # cs) ws =
     (if fd c \<noteq> sd then
        (case createMessage buffer len (allocs k) of
           Inl f \<Rightarrow> Inl f
         | Inr None \<Rightarrow>
             (case addMsg_loop sd buffer len allocs (Suc k) cs ws of
                Inl f \<Rightarrow> Inl f
              | Inr (cs', ws') \<Rightarrow> Inr (c # cs', ws'))
         | Inr (Some newMsg) \<Rightarrow>
             (case addMsg_loop sd buffer len allocs (Suc k) cs (insert (fd c) ws) of
                Inl f \<Rightarrow> Inl f
              | Inr (cs', ws') \<Rightarrow>
                  Inr (c\<lparr>write_msg_queue :=
                          (if write_msg_queue c = [] then [Live newMsg]
                           else write_msg_queue c @ [Live newMsg])\<rparr> # cs', ws')))
      else
        (case addMsg_loop sd buffer len allocs k cs ws of
           Inl f \<Rightarrow> Inl f
         | Inr (cs', ws') \<Rightarrow> Inr (c # cs', ws')))"

definition addMsg ::
  "int \<Rightarrow> byte list \<Rightarrow> int \<Rightarrow> conn_pool \<Rightarrow> (nat \<Rightarrow> bool \<times> bool) \<Rightarrow> fault + (int \<times> conn_pool)" where
  "addMsg sd buffer len pool allocs =
     (case addMsg_loop sd buffer len allocs 0 (conn_head pool) (write_set pool) of
        Inl f \<Rightarrow> Inl f
      | Inr (cs, ws) \<Rightarrow> Inr (0, pool\<lparr>conn_head := cs, write_set := ws\<rparr>))"

text \<open>
  For stating what a broadcast did to the connection at position \<open>i\<close> of the list:
  \<open>call_index\<close> counts the \<open>createMessage\<close> calls the loop makes before it reaches
  the position (one per earlier connection that is not the sender), and \<open>gets_message\<close>
  says that the connection is not the sender and both allocations of its own call
  succeed.
\<close>

definition call_index :: "int \<Rightarrow> conn list \<Rightarrow> nat \<Rightarrow> nat" where
  "call_index sd cs i = length (filter (\<lambda>x. fd x \<noteq> sd) (take i cs))"

definition gets_message :: "int \<Rightarrow> (nat \<Rightarrow> bool \<times> bool) \<Rightarrow> conn list \<Rightarrow> nat \<Rightarrow> bool" where
  "gets_message sd allocs cs i =
     (fd (cs ! i) \<noteq> sd \<and> fst (allocs (call_index sd cs i)) \<and> snd (allocs (call_index sd cs i)))"

section \<open>Draining: writeToClient\<close>

text \<open>
  The write loop. \<open>writes i\<close> is what the \<open>i\<close>-th \<open>write\<close> call of this drain returns.
  A result \<open>\<le> 0\<close> sets \<open>is_error\<close> and leaves the loop; otherwise the node is freed and
  the loop moves on. The loop returns the cells as they are left in memory, the \<open>write\<close>
  calls issued and \<open>is_error\<close>.
\<close>

fun write_loop ::
  "int \<Rightarrow> (nat \<Rightarrow> int) \<Rightarrow> nat \<Rightarrow> msg_node list \<Rightarrow> fault + (msg_node list \<times> event list \<times> bool)" where
  "write_loop sd writes i [] = Inr ([], [], False)"
| "write_loop sd writes i (Freed # rest) = Inl UseAfterFree"
| "write_loop sd writes i (Live m # rest) =
     (if writes i \<le> 0 then Inr (Live m # rest, [Write sd (message m) (msg_size m)], True)
      else (case write_loop sd writes (Suc i) rest of
              Inl f \<Rightarrow> Inl f
            | Inr (cells, evs, is_error) \<Rightarrow>
                Inr (Freed # cells, Write sd (message m) (msg_size m) # evs, is_error)))"

text \<open>
  \<open>writeToClient\<close>: \<open>-1\<close> when no connection has the descriptor. Otherwise the queue is
  drained; head and tail are reset only when no write failed; the descriptor is cleared
  from \<open>write_set\<close> and the function returns \<open>0\<close> in both cases.
\<close>

definition writeToClient ::
  "int \<Rightarrow> conn_pool \<Rightarrow> (nat \<Rightarrow> int) \<Rightarrow> fault + (int \<times> conn_pool \<times> event list)" where
  "writeToClient sd pool writes =
     (case find_conn sd (conn_head pool) of
        None \<Rightarrow> Inr (-1, pool, [])
      | Some (before, c, after) \<Rightarrow>
          (case write_loop sd writes 0 (write_msg_queue c) of
             Inl f \<Rightarrow> Inl f
           | Inr (cells, evs, is_error) \<Rightarrow>
               Inr (0,
                    pool\<lparr>conn_head :=
                           before @ [c\<lparr>write_msg_queue := (if is_error then cells else [])\<rparr>] @ after,
                         write_set := write_set pool - {sd}\<rparr>,
                    evs)))"

text \<open>
  The relation the pool is meant to keep between the write-interest set and the queues:
  the descriptor of a connection is in \<open>write_set\<close> exactly when its queue is not empty.
\<close>

definition write_interest_invariant :: "conn_pool \<Rightarrow> bool" where
  "write_interest_invariant pool =
     list_all (\<lambda>c. (fd c \<in> write_set pool) = (write_msg_queue c \<noteq> [])) (conn_head pool)"

section \<open>The dispatcher (main)\<close>

text \<open>
  \<open>read(sd, buffer, count)\<close>: the kernel either fails (\<open>-1\<close>, buffer untouched) or
  delivers at most \<open>count\<close> of the pending bytes into the front of the buffer and
  returns how many; no pending byte at all is end of file, the result \<open>0\<close>.
\<close>

datatype read_result = ReadBytes "byte list" | ReadError

definition sys_read :: "read_result \<Rightarrow> byte list \<Rightarrow> nat \<Rightarrow> int \<times> byte list" where
  "sys_read r buffer count =
     (case r of
        ReadError \<Rightarrow> (-1, buffer)
      | ReadBytes m \<Rightarrow>
          (let n = min (length m) count in (int n, take n m @ drop n buffer)))"

text \<open>
  \<open>processDataFromConnection\<close>: a zeroed buffer of \<open>BUFFER_SIZE\<close> bytes, one \<open>read\<close> of
  at most \<open>BUFFER_SIZE - 1\<close> bytes, then: data is capitalised and broadcast; end of file
  removes the connection and recomputes \<open>maxfd\<close>; an error is only reported.
\<close>

definition processDataFromConnection ::
  "int \<Rightarrow> conn_pool \<Rightarrow> int \<Rightarrow> read_result \<Rightarrow> (nat \<Rightarrow> bool \<times> bool)
     \<Rightarrow> fault + (conn_pool \<times> event list)" where
  "processDataFromConnection sd pool welcome_socket r allocs =
     (case sys_read r (replicate BUFFER_SIZE 0) (BUFFER_SIZE - 1) of
        (bytes_read, buffer) \<Rightarrow>
          if bytes_read > 0 then
            (case capitalizeMessage buffer bytes_read of
               Inl f \<Rightarrow> Inl f
             | Inr buffer' \<Rightarrow>
                 (case addMsg sd buffer' bytes_read pool allocs of
                    Inl f \<Rightarrow> Inl f
                  | Inr (ret, pool') \<Rightarrow> Inr (pool', [])))
          else if bytes_read = 0 then
            (case removeConn sd pool of
               Inl f \<Rightarrow> Inl f
             | Inr (ret, pool', evs) \<Rightarrow> Inr (updateMaxFd pool' welcome_socket, evs))
          else Inr (pool, []))"

text \<open>
  \<open>acceptNewConnection\<close>: \<open>new_socket\<close> is what \<open>accept\<close> returns, \<open>alloc\<close> the outcome
  of the allocation inside \<open>addConn\<close>. When \<open>addConn\<close> fails the caller closes the
  descriptor (after \<open>addConn\<close> has closed it already).
\<close>

definition acceptNewConnection ::
  "int \<Rightarrow> conn_pool \<Rightarrow> int \<Rightarrow> bool \<Rightarrow> int \<times> conn_pool \<times> event list" where
  "acceptNewConnection welcome_socket pool new_socket alloc =
     (if new_socket < 0 then (-1, pool, [])
      else (case addConn new_socket pool alloc of
              (ret, pool', evs) \<Rightarrow>
                if ret < 0 then (-1, pool', evs @ [Close new_socket])
                else (0, updateMaxFd pool' welcome_socket, evs)))"

text \<open>
  What the environment answers while one descriptor is served: the result of \<open>accept\<close>,
  of the connection's allocation, of \<open>read\<close>, of the message allocations of the
  broadcast, and of the \<open>write\<close> calls of the drain.
\<close>

record io =
  accept_ret :: int
  conn_alloc :: bool
  read_ret :: read_result
  msg_allocs :: "nat \<Rightarrow> bool \<times> bool"
  write_rets :: "nat \<Rightarrow> int"

text \<open>
  The second half of the body of the \<open>for\<close> loop of \<open>main\<close>: a descriptor that is ready
  for writing is drained, and the result of \<open>writeToClient\<close> is dropped.
\<close>

definition serve_write :: "int \<Rightarrow> conn_pool \<Rightarrow> io \<Rightarrow> event list \<Rightarrow> fault + (conn_pool \<times> event list)" where
  "serve_write sd pool env evs =
     (if sd \<in> ready_write_set pool then
        (case writeToClient sd pool (write_rets env) of
           Inl f \<Rightarrow> Inl f
         | Inr (ret, pool', evs') \<Rightarrow> Inr (pool'\<lparr>nready := nready pool' - 1\<rparr>, evs @ evs'))
      else Inr (pool, evs))"

text \<open>
  The body of the \<open>for\<close> loop of \<open>main\<close> for one descriptor \<open>sd\<close>. A failed accept
  \<open>continue\<close>s: neither the decrement of \<open>nready\<close> nor the write half runs.
\<close>

definition serve_descriptor :: "int \<Rightarrow> int \<Rightarrow> conn_pool \<Rightarrow> io \<Rightarrow> fault + (conn_pool \<times> event list)" where
  "serve_descriptor sd welcome_socket pool env =
     (if sd \<in> ready_read_set pool then
        (if sd = welcome_socket then
           (case acceptNewConnection welcome_socket pool (accept_ret env) (conn_alloc env) of
              (ret, pool', evs) \<Rightarrow>
                if ret \<noteq> 0 then Inr (pool', evs)
                else serve_write sd (pool'\<lparr>nready := nready pool' - 1\<rparr>) env evs)
         else
           (case processDataFromConnection sd pool welcome_socket (read_ret env) (msg_allocs env) of
              Inl f \<Rightarrow> Inl f
            | Inr (pool', evs) \<Rightarrow> serve_write sd (pool'\<lparr>nready := nready pool' - 1\<rparr>) env evs))
      else serve_write sd pool env [])"

text \<open>
  Shutdown. The loop follows the \<open>next\<close> pointers it saved, calling \<open>removeConn\<close> with
  each connection's descriptor; \<open>maxfd\<close> is not recomputed. The listening socket is
  closed last. (A visited node is still linked when the loop reaches it: every removal
  takes the first node with the descriptor, and the nodes before the current one are
  gone.)
\<close>

fun cleanup_loop :: "conn list \<Rightarrow> conn_pool \<Rightarrow> fault + (conn_pool \<times> event list)" where
  "cleanup_loop [] pool = Inr (pool, [])"
| "cleanup_loop (current # next) pool =
     (case removeConn (fd current) pool of
        Inl f \<Rightarrow> Inl f
      | Inr (ret, pool', evs) \<Rightarrow>
          (case cleanup_loop next pool' of
             Inl f \<Rightarrow> Inl f
           | Inr (pool'', evs') \<Rightarrow> Inr (pool'', evs @ evs')))"

definition cleanup :: "int \<Rightarrow> conn_pool \<Rightarrow> fault + (conn_pool \<times> event list)" where
  "cleanup welcome_socket pool =
     (case cleanup_loop (conn_head pool) pool of
        Inl f \<Rightarrow> Inl f
      | Inr (pool', evs) \<Rightarrow> Inr (pool', evs @ [Close welcome_socket]))"

section \<open>Startup: the command line\<close>

text \<open>
  \<open>strtoul(s, NULL, 10)\<close> of the C library, for a 64-bit \<open>unsigned long\<close>: leading
  white space is skipped, one sign is accepted, then the longest run of decimal digits is
  converted and whatever follows is ignored. No digit gives \<open>0\<close>; a value that does not
  fit gives \<open>ULONG_MAX\<close>; a minus sign negates the value in the unsigned type.
\<close>

definition isspace :: "char \<Rightarrow> bool" where
  "isspace c = ((of_char c :: int) = 32 \<or> (9 \<le> (of_char c :: int) \<and> (of_char c :: int) \<le> 13))"

definition isdigit :: "char \<Rightarrow> bool" where
  "isdigit c = (48 \<le> (of_char c :: int) \<and> (of_char c :: int) \<le> 57)"

definition digit_value :: "char \<Rightarrow> int" where
  "digit_value c = of_char c - 48"

definition decimal :: "string \<Rightarrow> int" where
  "decimal ds = foldl (\<lambda>acc c. 10 * acc + digit_value c) 0 ds"

definition ULONG_MAX :: int where
  "ULONG_MAX = 2 ^ 64 - 1"

definition strtoul :: "string \<Rightarrow> 64 word" where
  "strtoul s =
     (let s1 = dropWhile isspace s;
          neg = (s1 \<noteq> [] \<and> hd s1 = CHR ''-'');
          s2 = (if s1 \<noteq> [] \<and> (hd s1 = CHR ''-'' \<or> hd s1 = CHR ''+'') then tl s1 else s1);
          ds = takeWhile isdigit s2
      in if ds = [] then 0
         else if decimal ds > ULONG_MAX then word_of_int ULONG_MAX
         else if neg then - word_of_int (decimal ds)
         else word_of_int (decimal ds))"

text \<open>
  The head of \<open>main\<close>: \<open>argc\<close> is the length of \<open>argv\<close>. Anything but two entries
  prints the usage line and exits with failure. Otherwise \<open>argv[1]\<close> goes through
  \<open>strtoul\<close>, the result is read as a signed \<open>long\<close>, and a value outside 1..65535
  prints the usage line and exits with failure. A value inside becomes the port.
\<close>

datatype startup = Usage_Exit_Failure | Proceed "16 word"

definition main_args :: "string list \<Rightarrow> startup" where
  "main_args argv =
     (if length argv \<noteq> 2 then Usage_Exit_Failure
      else (let temp_port = sint (strtoul (argv ! 1))
            in if temp_port < 1 \<or> temp_port > 65535 then Usage_Exit_Failure
               else Proceed (word_of_int temp_port)))"

text \<open>
  The spec's reading of the command line, for comparison with \<open>main_args\<close>: the
  argument "denotes a TCP port number in [1, 65535]" when it is a decimal numeral (digits
  only, at least one) whose value lies in that range.
\<close>

definition spec_port_argument :: "string \<Rightarrow> bool" where
  "spec_port_argument s = (s \<noteq> [] \<and> list_all isdigit s \<and> 1 \<le> decimal s \<and> decimal s \<le> 65535)"

section \<open>Properties of the transform\<close>

lemma toupper_idem: "toupper (toupper c) = toupper c"
  unfolding toupper_def
  by (auto simp: word_le_nat_alt unat_sub word_less_nat_alt not_le)

lemma toupper_nonalpha: "\<not> isalpha c \<Longrightarrow> toupper c = c"
  by (auto simp: toupper_def isalpha_def)

lemma capitalizeMessage_loop_nth:
  "0 \<le> i \<Longrightarrow> len \<le> int (length buf) \<Longrightarrow>
   \<exists>out. capitalizeMessage_loop buf i len = Inr out \<and> length out = length buf \<and>
     (\<forall>j < length buf. out ! j = (if i \<le> int j \<and> int j < len then toupper (buf ! j) else buf ! j))"
proof (induction buf i len rule: capitalizeMessage_loop.induct)
  case (1 buf i len)
  show ?case
  proof (cases "i < len")
    case True
    let ?buf' = "buf[nat i := toupper (buf ! nat i)]"
    from True 1 have inb: "0 \<le> i \<and> i < int (length buf)" by simp
    have pre: "0 \<le> i + 1" "len \<le> int (length ?buf')" using inb 1(3) by simp_all
    from 1(1) [OF True inb pre] obtain out where
      out: "capitalizeMessage_loop ?buf' (i + 1) len = Inr out" "length out = length buf"
      "\<forall>j < length buf. out ! j = (if i + 1 \<le> int j \<and> int j < len then toupper (?buf' ! j) else ?buf' ! j)"
      by auto
    have "capitalizeMessage_loop buf i len = Inr out"
      using True inb out(1) by (subst capitalizeMessage_loop.simps) simp
    moreover have "\<forall>j < length buf. out ! j = (if i \<le> int j \<and> int j < len then toupper (buf ! j) else buf ! j)"
    proof (intro allI impI)
      fix j assume j: "j < length buf"
      show "out ! j = (if i \<le> int j \<and> int j < len then toupper (buf ! j) else buf ! j)"
      proof (cases "j = nat i")
        case True
        then show ?thesis using out(3) [rule_format, OF j] j inb \<open>i < len\<close> by simp
      next
        case False
        then show ?thesis using out(3) [rule_format, OF j] j inb by (auto simp: nth_list_update)
      qed
    qed
    ultimately show ?thesis using out(2) by blast
  next
    case False
    then show ?thesis by (subst capitalizeMessage_loop.simps) auto
  qed
qed

lemma capitalizeMessage_eq:
  assumes "len \<le> int (length buf)"
  shows "capitalizeMessage buf len = Inr (map toupper (take (nat len) buf) @ drop (nat len) buf)"
proof -
  from capitalizeMessage_loop_nth [of 0 len buf] assms obtain out where
    out: "capitalizeMessage_loop buf 0 len = Inr out" "length out = length buf"
      "\<forall>j < length buf. out ! j = (if int j < len then toupper (buf ! j) else buf ! j)"
    by auto
  have "out = map toupper (take (nat len) buf) @ drop (nat len) buf"
  proof (rule nth_equalityI)
    show "length out = length (map toupper (take (nat len) buf) @ drop (nat len) buf)"
      using out(2) by simp
  next
    fix j assume "j < length out"
    then have j: "j < length buf" using out(2) by simp
    show "out ! j = (map toupper (take (nat len) buf) @ drop (nat len) buf) ! j"
      using out(3) j assms by (auto simp: nth_append min_def)
  qed
  then show ?thesis using out(1) by (simp add: capitalizeMessage_def)
qed

text \<open>
  Claim C10. For a length that stays inside the buffer, \<open>capitalizeMessage\<close> returns a
  buffer of the same length in which each of the first \<open>len\<close> bytes is \<open>toupper\<close> of the
  byte that was there and every later byte is untouched; a byte that is not a letter is
  never changed; and running the function again on its own output changes nothing.
\<close>

theorem capitalizeMessage_uppercases_prefix:
  assumes "len \<le> int (length buf)"
  shows "\<exists>out. capitalizeMessage buf len = Inr out \<and> length out = length buf \<and>
     (\<forall>j < length buf. out ! j = (if int j < len then toupper (buf ! j) else buf ! j)) \<and>
     (\<forall>j < length buf. \<not> isalpha (buf ! j) \<longrightarrow> out ! j = buf ! j) \<and>
     capitalizeMessage out len = Inr out"
proof -
  let ?out = "map toupper (take (nat len) buf) @ drop (nat len) buf"
  have 1: "capitalizeMessage buf len = Inr ?out" by (rule capitalizeMessage_eq [OF assms])
  have 2: "length ?out = length buf" by simp
  have 3: "\<forall>j < length buf. ?out ! j = (if int j < len then toupper (buf ! j) else buf ! j)"
    using assms by (auto simp: nth_append min_def)
  have 4: "\<forall>j < length buf. \<not> isalpha (buf ! j) \<longrightarrow> ?out ! j = buf ! j"
    using 3 by (simp add: toupper_nonalpha)
  have "capitalizeMessage ?out len = Inr (map toupper (take (nat len) ?out) @ drop (nat len) ?out)"
    by (rule capitalizeMessage_eq) (use assms in simp)
  also have "map toupper (take (nat len) ?out) @ drop (nat len) ?out = ?out"
    using assms by (simp add: toupper_idem min_def)
  finally have 5: "capitalizeMessage ?out len = Inr ?out" .
  from 1 2 3 4 5 show ?thesis by blast
qed

theorem capitalizeMessage_uppercases_prefix_witness:
  "(2::int) \<le> int (length [104, 105, 33 :: byte]) \<and>
   (\<exists>out. capitalizeMessage [104, 105, 33] 2 = Inr out \<and> out = [72, 73, 33] \<and>
          capitalizeMessage out 2 = Inr out)"
proof -
  have h: "(2::int) \<le> int (length [104, 105, 33 :: byte])" by simp
  from capitalizeMessage_uppercases_prefix [OF h] obtain out where
    o: "capitalizeMessage [104, 105, 33] 2 = Inr out" "length out = 3"
       "\<forall>j < 3. out ! j = (if int j < 2 then toupper ([104, 105, 33] ! j) else [104, 105, 33] ! j)"
       "capitalizeMessage out 2 = Inr out"
    by auto
  have "out ! 0 = 72" "out ! 1 = 73" "out ! 2 = 33"
    using o(3) by (simp_all add: toupper_def)
  with o(2) have "out = [72, 73, 33]"
    by (auto simp: length_Suc_conv numeral_3_eq_3)
  with o show ?thesis by simp
qed

section \<open>Adding and removing connections\<close>

lemma find_conn_None: "(find_conn sd cs = None) = (sd \<notin> fd ` set cs)"
  by (induction cs) (auto split: option.splits)

lemma find_conn_Some:
  "find_conn sd cs = Some (before, temp, after) \<Longrightarrow>
     cs = before @ temp # after \<and> fd temp = sd \<and> sd \<notin> fd ` set before"
  by (induction cs arbitrary: before) (auto split: option.splits if_splits)

lemma find_conn_split:
  "sd \<notin> fd ` set before \<Longrightarrow> fd temp = sd \<Longrightarrow>
     find_conn sd (before @ temp # after) = Some (before, temp, after)"
  by (induction before) auto

text \<open>
  Claim C7. Removing a descriptor that no connection of the pool carries returns \<open>-1\<close>
  (not found), issues no system call and returns the pool exactly as it was: the
  connection list, both interest sets and the connection count are untouched.
\<close>

theorem removeConn_absent:
  assumes "sd \<notin> fd ` set (conn_head pool)"
  shows "removeConn sd pool = Inr (-1, pool, [])"
  using assms by (simp add: removeConn_def find_conn_None [symmetric])

theorem removeConn_absent_witness:
  "7 \<notin> fd ` set (conn_head (initPool\<lparr>conn_head := [\<lparr>fd = 5, write_msg_queue = []\<rparr>]\<rparr>)) \<and>
   removeConn 7 (initPool\<lparr>conn_head := [\<lparr>fd = 5, write_msg_queue = []\<rparr>]\<rparr>)
     = Inr (-1, initPool\<lparr>conn_head := [\<lparr>fd = 5, write_msg_queue = []\<rparr>]\<rparr>, [])"
proof -
  have h: "7 \<notin> fd ` set (conn_head (initPool\<lparr>conn_head := [\<lparr>fd = 5, write_msg_queue = []\<rparr>]\<rparr>))"
    by simp
  from h removeConn_absent [OF h] show ?thesis by blast
qed

text \<open>
  Claim C6, as the code has it. When the allocation of the connection object fails,
  \<open>addConn\<close> returns \<open>-1\<close> and the pool is returned unchanged in every field, but the
  descriptor is not left open: \<open>addConn\<close> itself closes it before returning. Its caller
  \<open>acceptNewConnection\<close> reports \<open>-1\<close> in turn and hands the pool back unchanged.
\<close>

theorem addConn_alloc_failure:
  "addConn sd pool False = (-1, pool, [Close sd]) \<and>
   fst (acceptNewConnection welcome_socket pool sd False) = -1 \<and>
   fst (snd (acceptNewConnection welcome_socket pool sd False)) = pool"
proof -
  have a: "addConn sd pool False = (-1, pool, [Close sd])"
    by (simp add: addConn_def)
  have "acceptNewConnection welcome_socket pool sd False =
          (if sd < 0 then (-1, pool, []) else (-1, pool, [Close sd, Close sd]))"
    by (simp add: acceptNewConnection_def a)
  with a show ?thesis by simp
qed

text \<open>
  The claim as stated fails: after a failed allocation for descriptor 7 the trace of
  \<open>addConn\<close> holds the \<open>close\<close> of 7.
\<close>

theorem addConn_alloc_failure_closes_descriptor:
  "fst (addConn 7 initPool False) = -1 \<and>
   Close 7 \<in> set (snd (snd (addConn 7 initPool False)))"
  by (simp add: addConn_def)

section \<open>Broadcast\<close>

lemma createMessage_ok:
  "0 \<le> len \<Longrightarrow> len \<le> int (length buffer) \<Longrightarrow>
   createMessage buffer len alloc =
     Inr (if fst alloc \<and> snd alloc then Some \<lparr>message = take (nat len) buffer, msg_size = len\<rparr> else None)"
  by (auto simp: createMessage_def)

lemma addMsg_loop_all_ok:
  assumes "0 \<le> len" "len \<le> int (length buffer)"
    and "\<forall>i. allocs i = (True, True)"
  shows "addMsg_loop sd buffer len allocs k cs ws =
     Inr (map (\<lambda>c. if fd c \<noteq> sd
                     then c\<lparr>write_msg_queue :=
                            write_msg_queue c @ [Live \<lparr>message = take (nat len) buffer, msg_size = len\<rparr>]\<rparr>
                     else c) cs,
          ws \<union> (fd ` set cs - {sd}))"
proof (induction cs arbitrary: k ws)
  case Nil
  show ?case by simp
next
  case (Cons c cs)
  have cm: "createMessage buffer len (allocs k) = Inr (Some \<lparr>message = take (nat len) buffer, msg_size = len\<rparr>)"
    using assms by (simp add: createMessage_ok)
  show ?case
  proof (cases "fd c = sd")
    case True
    have "ws \<union> (fd ` set cs - {sd}) = ws \<union> (fd ` set (c # cs) - {sd})"
      using True by auto
    then show ?thesis using True by (simp add: Cons.IH)
  next
    case False
    have "insert (fd c) ws \<union> (fd ` set cs - {sd}) = ws \<union> (fd ` set (c # cs) - {sd})"
      using False by auto
    then show ?thesis using False by (simp add: Cons.IH cm)
  qed
qed

lemma addMsg_loop_nth:
  assumes "0 \<le> len" "len \<le> int (length buffer)"
  shows "\<exists>cs' ws'. addMsg_loop sd buffer len allocs k cs ws = Inr (cs', ws') \<and>
     length cs' = length cs \<and>
     (\<forall>i < length cs. cs' ! i =
        (if fd (cs ! i) \<noteq> sd
            \<and> fst (allocs (k + length (filter (\<lambda>x. fd x \<noteq> sd) (take i cs))))
            \<and> snd (allocs (k + length (filter (\<lambda>x. fd x \<noteq> sd) (take i cs))))
         then (cs ! i)\<lparr>write_msg_queue :=
                 write_msg_queue (cs ! i) @ [Live \<lparr>message = take (nat len) buffer, msg_size = len\<rparr>]\<rparr>
         else cs ! i)) \<and>
     ws' = ws \<union> {fd (cs ! i) | i. i < length cs \<and> fd (cs ! i) \<noteq> sd
            \<and> fst (allocs (k + length (filter (\<lambda>x. fd x \<noteq> sd) (take i cs))))
            \<and> snd (allocs (k + length (filter (\<lambda>x. fd x \<noteq> sd) (take i cs))))}"
proof (induction cs arbitrary: k ws)
  case Nil
  show ?case by simp
next
  case (Cons c cs)
  define msg where "msg = \<lparr>message = take (nat len) buffer, msg_size = len\<rparr>"
  define ok where "ok = (\<lambda>k (cs :: conn list) i. fd (cs ! i) \<noteq> sd
            \<and> fst (allocs (k + length (filter (\<lambda>x. fd x \<noteq> sd) (take i cs))))
            \<and> snd (allocs (k + length (filter (\<lambda>x. fd x \<noteq> sd) (take i cs)))))"
  define k' where "k' = (if fd c \<noteq> sd then Suc k else k)"
  define d0 where "d0 = (fd c \<noteq> sd \<and> fst (allocs k) \<and> snd (allocs k))"
  define ws1 where "ws1 = (if d0 then insert (fd c) ws else ws)"
  define c' where "c' = (if d0 then c\<lparr>write_msg_queue := write_msg_queue c @ [Live msg]\<rparr> else c)"
  from Cons.IH [of k' ws1] obtain cs' ws' where
    IH: "addMsg_loop sd buffer len allocs k' cs ws1 = Inr (cs', ws')"
        "length cs' = length cs"
        "\<forall>i < length cs. cs' ! i =
           (if ok k' cs i then (cs ! i)\<lparr>write_msg_queue := write_msg_queue (cs ! i) @ [Live msg]\<rparr>
            else cs ! i)"
        "ws' = ws1 \<union> {fd (cs ! i) | i. i < length cs \<and> ok k' cs i}"
    unfolding ok_def msg_def by blast
  have step: "addMsg_loop sd buffer len allocs k (c # cs) ws = Inr (c' # cs', ws')"
  proof (cases "fd c = sd")
    case True
    then show ?thesis using IH(1) by (simp add: k'_def d0_def ws1_def c'_def)
  next
    case False
    show ?thesis
    proof (cases "fst (allocs k) \<and> snd (allocs k)")
      case True
      then have cm: "createMessage buffer len (allocs k) = Inr (Some msg)"
        using assms by (simp add: createMessage_ok msg_def)
      have "d0 = True" using True False by (simp add: d0_def)
      then show ?thesis using IH(1) False
        by (simp add: cm k'_def ws1_def c'_def)
    next
      case False
      then have cm: "createMessage buffer len (allocs k) = Inr None"
        by (auto simp: createMessage_def)
      have "d0 = False" using False by (simp add: d0_def)
      then show ?thesis using IH(1) \<open>fd c \<noteq> sd\<close>
        by (simp add: cm k'_def ws1_def c'_def)
    qed
  qed
  have shift: "ok k (c # cs) (Suc i) = ok k' cs i" for i
    by (simp add: ok_def k'_def)
  have zero: "ok k (c # cs) 0 = d0"
    by (simp add: ok_def d0_def)
  have nth: "(c' # cs') ! i =
           (if ok k (c # cs) i
            then ((c # cs) ! i)\<lparr>write_msg_queue := write_msg_queue ((c # cs) ! i) @ [Live msg]\<rparr>
            else (c # cs) ! i)" if i: "i < length (c # cs)" for i
  proof (cases i)
    case 0
    then show ?thesis by (simp add: zero c'_def)
  next
    case (Suc j)
    with i have j: "j < length cs" by simp
    show ?thesis using IH(3) [rule_format, OF j] unfolding Suc shift by simp
  qed
  have sets: "{fd ((c # cs) ! i) | i. i < length (c # cs) \<and> ok k (c # cs) i}
        = (if d0 then {fd c} else {}) \<union> {fd (cs ! i) | i. i < length cs \<and> ok k' cs i}"
    (is "?L = ?R")
  proof (rule set_eqI)
    fix x
    have "x \<in> ?L \<longleftrightarrow> (\<exists>i. i < Suc (length cs) \<and> x = fd ((c # cs) ! i) \<and> ok k (c # cs) i)"
      by auto
    also have "\<dots> \<longleftrightarrow> (x = fd c \<and> ok k (c # cs) 0) \<or>
        (\<exists>j. j < length cs \<and> x = fd ((c # cs) ! Suc j) \<and> ok k (c # cs) (Suc j))"
    proof
      assume "\<exists>i. i < Suc (length cs) \<and> x = fd ((c # cs) ! i) \<and> ok k (c # cs) i"
      then obtain i where i: "i < Suc (length cs)" "x = fd ((c # cs) ! i)" "ok k (c # cs) i" by blast
      show "(x = fd c \<and> ok k (c # cs) 0) \<or>
        (\<exists>j. j < length cs \<and> x = fd ((c # cs) ! Suc j) \<and> ok k (c # cs) (Suc j))"
      proof (cases i)
        case 0
        with i show ?thesis by simp
      next
        case (Suc j)
        with i have "j < length cs \<and> x = fd ((c # cs) ! Suc j) \<and> ok k (c # cs) (Suc j)" by simp
        then show ?thesis by blast
      qed
    next
      assume "(x = fd c \<and> ok k (c # cs) 0) \<or>
        (\<exists>j. j < length cs \<and> x = fd ((c # cs) ! Suc j) \<and> ok k (c # cs) (Suc j))"
      then show "\<exists>i. i < Suc (length cs) \<and> x = fd ((c # cs) ! i) \<and> ok k (c # cs) i"
      proof
        assume "x = fd c \<and> ok k (c # cs) 0"
        then have "0 < Suc (length cs) \<and> x = fd ((c # cs) ! 0) \<and> ok k (c # cs) 0" by simp
        then show ?thesis by blast
      next
        assume "\<exists>j. j < length cs \<and> x = fd ((c # cs) ! Suc j) \<and> ok k (c # cs) (Suc j)"
        then obtain j where "j < length cs \<and> x = fd ((c # cs) ! Suc j) \<and> ok k (c # cs) (Suc j)" by blast
        then have "Suc j < Suc (length cs) \<and> x = fd ((c # cs) ! Suc j) \<and> ok k (c # cs) (Suc j)" by simp
        then show ?thesis by blast
      qed
    qed
    also have "\<dots> \<longleftrightarrow> x \<in> ?R"
      unfolding shift zero by auto
    finally show "x \<in> ?L \<longleftrightarrow> x \<in> ?R" .
  qed
  have ws: "ws' = ws \<union> {fd ((c # cs) ! i) | i. i < length (c # cs) \<and> ok k (c # cs) i}"
    unfolding sets IH(4) ws1_def by auto
  have "addMsg_loop sd buffer len allocs k (c # cs) ws = Inr (c' # cs', ws') \<and>
     length (c' # cs') = length (c # cs) \<and>
     (\<forall>i < length (c # cs). (c' # cs') ! i =
        (if ok k (c # cs) i
         then ((c # cs) ! i)\<lparr>write_msg_queue := write_msg_queue ((c # cs) ! i) @ [Live msg]\<rparr>
         else (c # cs) ! i)) \<and>
     ws' = ws \<union> {fd ((c # cs) ! i) | i. i < length (c # cs) \<and> ok k (c # cs) i}"
    using step nth ws IH(2) by simp
  then show ?case unfolding ok_def msg_def by blast
qed

lemma processData_bytes:
  assumes "m \<noteq> []" "length m < BUFFER_SIZE"
  shows "processDataFromConnection sd pool welcome_socket (ReadBytes m) allocs =
     (case addMsg sd (map toupper m @ replicate (BUFFER_SIZE - length m) 0) (int (length m)) pool allocs of
        Inl f \<Rightarrow> Inl f
      | Inr (ret, pool') \<Rightarrow> Inr (pool', []))"
proof -
  have rd: "sys_read (ReadBytes m) (replicate BUFFER_SIZE 0) (BUFFER_SIZE - 1)
        = (int (length m), m @ replicate (BUFFER_SIZE - length m) 0)"
  proof -
    have "min (length m) (BUFFER_SIZE - 1) = length m" using assms(2) by simp
    then show ?thesis by (simp add: sys_read_def Let_def)
  qed
  have cap: "capitalizeMessage (m @ replicate (BUFFER_SIZE - length m) 0) (int (length m))
        = Inr (map toupper m @ replicate (BUFFER_SIZE - length m) 0)"
    by (subst capitalizeMessage_eq) simp_all
  have pos: "int (length m) > 0" using assms by simp
  show ?thesis
    unfolding processDataFromConnection_def rd using pos by (simp add: cap)
qed

lemma addMsg_positions:
  assumes "0 \<le> len" "len \<le> int (length buffer)"
  shows "\<exists>pool'. addMsg sd buffer len pool allocs = Inr (0, pool') \<and>
     length (conn_head pool') = length (conn_head pool) \<and>
     (\<forall>i < length (conn_head pool). conn_head pool' ! i =
        (if gets_message sd allocs (conn_head pool) i
         then (conn_head pool ! i)\<lparr>write_msg_queue :=
                 write_msg_queue (conn_head pool ! i)
                   @ [Live \<lparr>message = take (nat len) buffer, msg_size = len\<rparr>]\<rparr>
         else conn_head pool ! i))"
proof -
  from addMsg_loop_nth [OF assms, of sd allocs 0 "conn_head pool" "write_set pool"]
  obtain cs' ws' where
    r: "addMsg_loop sd buffer len allocs 0 (conn_head pool) (write_set pool) = Inr (cs', ws')"
       "length cs' = length (conn_head pool)"
       "\<forall>i < length (conn_head pool). cs' ! i =
        (if gets_message sd allocs (conn_head pool) i
         then (conn_head pool ! i)\<lparr>write_msg_queue :=
                 write_msg_queue (conn_head pool ! i)
                   @ [Live \<lparr>message = take (nat len) buffer, msg_size = len\<rparr>]\<rparr>
         else conn_head pool ! i)"
    unfolding gets_message_def call_index_def by auto
  define pool' where "pool' = pool\<lparr>conn_head := cs', write_set := ws'\<rparr>"
  have sel: "conn_head pool' = cs'" by (simp add: pool'_def)
  have A: "addMsg sd buffer len pool allocs = Inr (0, pool')"
    by (simp add: addMsg_def r(1) pool'_def)
  have C: "length (conn_head pool') = length (conn_head pool)"
    unfolding sel by (rule r(2))
  have D: "\<forall>i < length (conn_head pool). conn_head pool' ! i =
        (if gets_message sd allocs (conn_head pool) i
         then (conn_head pool ! i)\<lparr>write_msg_queue :=
                 write_msg_queue (conn_head pool ! i)
                   @ [Live \<lparr>message = take (nat len) buffer, msg_size = len\<rparr>]\<rparr>
         else conn_head pool ! i)"
    unfolding sel by (rule r(3))
  from A C D show ?thesis by (intro exI [of _ pool'] conjI)
qed

text \<open>
  Claim C1, as the code has it. A read that delivers the bytes \<open>m\<close> (at least one, fewer
  than the buffer size) on descriptor \<open>sd\<close>: the transform of \<open>m\<close> is \<open>map toupper m\<close>.
  Whatever the allocations of the broadcast do, every connection is returned either as it
  was or with exactly one new message, equal to the transform of \<open>m\<close>, appended at the
  end of its queue (no double delivery); it gets the message exactly when it is not the
  sender and the allocations of its own copy succeed, so a connection with the sender's
  descriptor is always returned as it was (no self-echo). When every allocation
  succeeds, every connection other than the sender has the one new message and its
  descriptor is in the write-interest set, and nothing else in the pool changes.
\<close>

theorem broadcast_fan_out:
  assumes "m \<noteq> []" "length m < BUFFER_SIZE"
  shows "capitalizeMessage m (int (length m)) = Inr (map toupper m) \<and>
     (\<exists>pool'. processDataFromConnection sd pool welcome_socket (ReadBytes m) allocs = Inr (pool', []) \<and>
        length (conn_head pool') = length (conn_head pool) \<and>
        (\<forall>i < length (conn_head pool). conn_head pool' ! i =
           (if gets_message sd allocs (conn_head pool) i
            then (conn_head pool ! i)\<lparr>write_msg_queue :=
                    write_msg_queue (conn_head pool ! i)
                      @ [Live \<lparr>message = map toupper m, msg_size = int (length m)\<rparr>]\<rparr>
            else conn_head pool ! i)) \<and>
        (\<forall>i < length (conn_head pool).
           fd (conn_head pool ! i) = sd \<longrightarrow> conn_head pool' ! i = conn_head pool ! i)) \<and>
     ((\<forall>k. allocs k = (True, True)) \<longrightarrow>
        processDataFromConnection sd pool welcome_socket (ReadBytes m) allocs =
        Inr (pool\<lparr>conn_head :=
                    map (\<lambda>c. if fd c \<noteq> sd
                              then c\<lparr>write_msg_queue :=
                                     write_msg_queue c @ [Live \<lparr>message = map toupper m, msg_size = int (length m)\<rparr>]\<rparr>
                              else c) (conn_head pool),
                  write_set := write_set pool \<union> (fd ` set (conn_head pool) - {sd})\<rparr>, []))"
proof -
  have t: "capitalizeMessage m (int (length m)) = Inr (map toupper m)"
    by (subst capitalizeMessage_eq) simp_all
  let ?buffer = "map toupper m @ replicate (BUFFER_SIZE - length m) 0"
  let ?msg = "\<lparr>message = map toupper m, msg_size = int (length m)\<rparr>"
  have len: "0 \<le> int (length m)" "int (length m) \<le> int (length ?buffer)" by simp_all
  have tk: "take (nat (int (length m))) ?buffer = map toupper m" by simp
  have pd: "processDataFromConnection sd pool welcome_socket (ReadBytes m) allocs =
     (case addMsg sd ?buffer (int (length m)) pool allocs of
        Inl f \<Rightarrow> Inl f
      | Inr (ret, pool') \<Rightarrow> Inr (pool', []))"
    by (rule processData_bytes [OF assms])
  from addMsg_positions [OF len, of sd pool allocs] obtain pool' where
    p: "addMsg sd ?buffer (int (length m)) pool allocs = Inr (0, pool')"
       "length (conn_head pool') = length (conn_head pool)"
       "\<forall>i < length (conn_head pool). conn_head pool' ! i =
        (if gets_message sd allocs (conn_head pool) i
         then (conn_head pool ! i)\<lparr>write_msg_queue :=
                 write_msg_queue (conn_head pool ! i) @ [Live ?msg]\<rparr>
         else conn_head pool ! i)"
    unfolding tk by blast
  have A: "processDataFromConnection sd pool welcome_socket (ReadBytes m) allocs = Inr (pool', [])"
    unfolding pd p(1) by simp
  have S: "\<forall>i < length (conn_head pool).
           fd (conn_head pool ! i) = sd \<longrightarrow> conn_head pool' ! i = conn_head pool ! i"
  proof (intro allI impI)
    fix i assume i: "i < length (conn_head pool)" and s: "fd (conn_head pool ! i) = sd"
    from s have "\<not> gets_message sd allocs (conn_head pool) i" by (simp add: gets_message_def)
    with p(3) [rule_format, OF i] show "conn_head pool' ! i = conn_head pool ! i" by simp
  qed
  have G: "\<exists>pool'. processDataFromConnection sd pool welcome_socket (ReadBytes m) allocs = Inr (pool', []) \<and>
        length (conn_head pool') = length (conn_head pool) \<and>
        (\<forall>i < length (conn_head pool). conn_head pool' ! i =
           (if gets_message sd allocs (conn_head pool) i
            then (conn_head pool ! i)\<lparr>write_msg_queue :=
                    write_msg_queue (conn_head pool ! i) @ [Live ?msg]\<rparr>
            else conn_head pool ! i)) \<and>
        (\<forall>i < length (conn_head pool).
           fd (conn_head pool ! i) = sd \<longrightarrow> conn_head pool' ! i = conn_head pool ! i)"
    using A p(2) p(3) S by (intro exI [of _ pool'] conjI)
  have F: "(\<forall>k. allocs k = (True, True)) \<longrightarrow>
        processDataFromConnection sd pool welcome_socket (ReadBytes m) allocs =
        Inr (pool\<lparr>conn_head :=
                    map (\<lambda>c. if fd c \<noteq> sd
                              then c\<lparr>write_msg_queue := write_msg_queue c @ [Live ?msg]\<rparr>
                              else c) (conn_head pool),
                  write_set := write_set pool \<union> (fd ` set (conn_head pool) - {sd})\<rparr>, [])"
  proof
    assume ok: "\<forall>k. allocs k = (True, True)"
    have "addMsg sd ?buffer (int (length m)) pool allocs =
       Inr (0, pool\<lparr>conn_head :=
                   map (\<lambda>c. if fd c \<noteq> sd
                             then c\<lparr>write_msg_queue := write_msg_queue c @ [Live ?msg]\<rparr>
                             else c) (conn_head pool),
                 write_set := write_set pool \<union> (fd ` set (conn_head pool) - {sd})\<rparr>)"
      unfolding addMsg_def addMsg_loop_all_ok [OF len ok] tk by simp
    then show "processDataFromConnection sd pool welcome_socket (ReadBytes m) allocs =
        Inr (pool\<lparr>conn_head :=
                    map (\<lambda>c. if fd c \<noteq> sd
                              then c\<lparr>write_msg_queue := write_msg_queue c @ [Live ?msg]\<rparr>
                              else c) (conn_head pool),
                  write_set := write_set pool \<union> (fd ` set (conn_head pool) - {sd})\<rparr>, [])"
      unfolding pd by simp
  qed
  from t G F show ?thesis by (intro conjI)
qed

theorem broadcast_fan_out_witness:
  "[104, 105 :: byte] \<noteq> [] \<and> length [104, 105 :: byte] < BUFFER_SIZE \<and>
   (\<forall>k. (\<lambda>k. (True, True)) k = (True, True)) \<and>
   processDataFromConnection 5
     (initPool\<lparr>conn_head := [\<lparr>fd = 5, write_msg_queue = []\<rparr>,
                             \<lparr>fd = 6, write_msg_queue = [Live \<lparr>message = [88], msg_size = 1\<rparr>]\<rparr>,
                             \<lparr>fd = 7, write_msg_queue = []\<rparr>],
               write_set := {6}\<rparr>)
     3 (ReadBytes [104, 105]) (\<lambda>k. (True, True)) =
   Inr (initPool\<lparr>conn_head := [\<lparr>fd = 5, write_msg_queue = []\<rparr>,
                             \<lparr>fd = 6, write_msg_queue = [Live \<lparr>message = [88], msg_size = 1\<rparr>,
                                                          Live \<lparr>message = [72, 73], msg_size = 2\<rparr>]\<rparr>,
                             \<lparr>fd = 7, write_msg_queue = [Live \<lparr>message = [72, 73], msg_size = 2\<rparr>]\<rparr>],
               write_set := {6, 7}\<rparr>, [])"
proof -
  have h: "[104, 105 :: byte] \<noteq> []" "length [104, 105 :: byte] < BUFFER_SIZE"
    by (simp_all add: BUFFER_SIZE_def)
  have ok: "\<forall>k. (\<lambda>k. (True, True)) k = (True, True)" by simp
  have "{6} \<union> ({5, 6, 7} - {5}) = {6, 7 :: int}" by auto
  with broadcast_fan_out [OF h, of 5 "initPool\<lparr>conn_head := [\<lparr>fd = 5, write_msg_queue = []\<rparr>,
                             \<lparr>fd = 6, write_msg_queue = [Live \<lparr>message = [88], msg_size = 1\<rparr>]\<rparr>,
                             \<lparr>fd = 7, write_msg_queue = []\<rparr>],
               write_set := {6}\<rparr>" 3 "\<lambda>k. (True, True)",
        THEN conjunct2, THEN conjunct2, THEN mp, OF ok] h
  show ?thesis by (simp add: toupper_def initPool_def)
qed

text \<open>
  The claim as stated fails when an allocation fails: descriptor 5 sends two bytes, the
  creation of the first copy fails, and connection 6, which is not the sender, is
  returned with its queue as it was, while connection 7 receives the message.
\<close>

theorem broadcast_skips_recipient_on_allocation_failure:
  "[104, 105 :: byte] \<noteq> [] \<and> length [104, 105 :: byte] < BUFFER_SIZE \<and>
   processDataFromConnection 5
     (initPool\<lparr>conn_head := [\<lparr>fd = 5, write_msg_queue = []\<rparr>,
                             \<lparr>fd = 6, write_msg_queue = []\<rparr>,
                             \<lparr>fd = 7, write_msg_queue = []\<rparr>]\<rparr>)
     3 (ReadBytes [104, 105]) (\<lambda>k. (k \<noteq> 0, True)) =
   Inr (initPool\<lparr>conn_head := [\<lparr>fd = 5, write_msg_queue = []\<rparr>,
                             \<lparr>fd = 6, write_msg_queue = []\<rparr>,
                             \<lparr>fd = 7, write_msg_queue = [Live \<lparr>message = [72, 73], msg_size = 2\<rparr>]\<rparr>],
               write_set := {7}\<rparr>, [])"
proof -
  have h: "[104, 105 :: byte] \<noteq> []" "length [104, 105 :: byte] < BUFFER_SIZE"
    by (simp_all add: BUFFER_SIZE_def)
  have b: "BUFFER_SIZE - 2 = 4094" by (simp add: BUFFER_SIZE_def)
  show ?thesis
    using h
    by (simp add: processData_bytes [OF h] addMsg_def createMessage_def toupper_def initPool_def b)
qed

text \<open>
  Claim C8. Whatever the allocations do, \<open>addMsg\<close> returns 0 and treats every
  connection on its own: a recipient whose message cannot be created is left exactly as
  it was, every other recipient gets the message appended, and the loop goes on to the
  end of the list. The write-interest set gains exactly the descriptors of the
  connections that received the message, so the write interest of a skipped recipient is
  unchanged (unless another connection that did receive carries the same descriptor).
\<close>

theorem addMsg_best_effort:
  assumes "0 \<le> len" "len \<le> int (length buffer)"
  shows "\<exists>pool'. addMsg sd buffer len pool allocs = Inr (0, pool') \<and>
     pool' = pool\<lparr>conn_head := conn_head pool', write_set := write_set pool'\<rparr> \<and>
     length (conn_head pool') = length (conn_head pool) \<and>
     (\<forall>i < length (conn_head pool). conn_head pool' ! i =
        (if gets_message sd allocs (conn_head pool) i
         then (conn_head pool ! i)\<lparr>write_msg_queue :=
                 write_msg_queue (conn_head pool ! i)
                   @ [Live \<lparr>message = take (nat len) buffer, msg_size = len\<rparr>]\<rparr>
         else conn_head pool ! i)) \<and>
     write_set pool' = write_set pool \<union>
        {fd (conn_head pool ! i) | i. i < length (conn_head pool) \<and> gets_message sd allocs (conn_head pool) i} \<and>
     (\<forall>i < length (conn_head pool).
        \<not> gets_message sd allocs (conn_head pool) i \<and>
        (\<forall>j < length (conn_head pool).
           gets_message sd allocs (conn_head pool) j \<longrightarrow> fd (conn_head pool ! j) \<noteq> fd (conn_head pool ! i))
        \<longrightarrow> (fd (conn_head pool ! i) \<in> write_set pool') = (fd (conn_head pool ! i) \<in> write_set pool))"
proof -
  from addMsg_loop_nth [OF assms, of sd allocs 0 "conn_head pool" "write_set pool"]
  obtain cs' ws' where
    r: "addMsg_loop sd buffer len allocs 0 (conn_head pool) (write_set pool) = Inr (cs', ws')"
       "length cs' = length (conn_head pool)"
       "\<forall>i < length (conn_head pool). cs' ! i =
        (if gets_message sd allocs (conn_head pool) i
         then (conn_head pool ! i)\<lparr>write_msg_queue :=
                 write_msg_queue (conn_head pool ! i)
                   @ [Live \<lparr>message = take (nat len) buffer, msg_size = len\<rparr>]\<rparr>
         else conn_head pool ! i)"
       "ws' = write_set pool \<union>
        {fd (conn_head pool ! i) | i. i < length (conn_head pool) \<and> gets_message sd allocs (conn_head pool) i}"
    unfolding gets_message_def call_index_def by auto
  define pool' where "pool' = pool\<lparr>conn_head := cs', write_set := ws'\<rparr>"
  have sel: "conn_head pool' = cs'" "write_set pool' = ws'" by (simp_all add: pool'_def)
  have A: "addMsg sd buffer len pool allocs = Inr (0, pool')"
    by (simp add: addMsg_def r(1) pool'_def)
  have B: "pool' = pool\<lparr>conn_head := conn_head pool', write_set := write_set pool'\<rparr>"
    by (simp add: pool'_def)
  have C: "length (conn_head pool') = length (conn_head pool)"
    unfolding sel by (rule r(2))
  have D: "\<forall>i < length (conn_head pool). conn_head pool' ! i =
        (if gets_message sd allocs (conn_head pool) i
         then (conn_head pool ! i)\<lparr>write_msg_queue :=
                 write_msg_queue (conn_head pool ! i)
                   @ [Live \<lparr>message = take (nat len) buffer, msg_size = len\<rparr>]\<rparr>
         else conn_head pool ! i)"
    unfolding sel by (rule r(3))
  have E: "write_set pool' = write_set pool \<union>
        {fd (conn_head pool ! i) | i. i < length (conn_head pool) \<and> gets_message sd allocs (conn_head pool) i}"
    unfolding sel by (rule r(4))
  have F: "\<forall>i < length (conn_head pool).
        \<not> gets_message sd allocs (conn_head pool) i \<and>
        (\<forall>j < length (conn_head pool).
           gets_message sd allocs (conn_head pool) j \<longrightarrow> fd (conn_head pool ! j) \<noteq> fd (conn_head pool ! i))
        \<longrightarrow> (fd (conn_head pool ! i) \<in> write_set pool') = (fd (conn_head pool ! i) \<in> write_set pool)"
  proof (intro allI impI)
    fix i
    assume that: "\<not> gets_message sd allocs (conn_head pool) i \<and>
        (\<forall>j < length (conn_head pool).
           gets_message sd allocs (conn_head pool) j \<longrightarrow> fd (conn_head pool ! j) \<noteq> fd (conn_head pool ! i))"
    define S where "S = {fd (conn_head pool ! j) | j. j < length (conn_head pool) \<and> gets_message sd allocs (conn_head pool) j}"
    have "fd (conn_head pool ! i) \<notin> S"
    proof
      assume "fd (conn_head pool ! i) \<in> S"
      then obtain j where j: "j < length (conn_head pool)" "gets_message sd allocs (conn_head pool) j"
        "fd (conn_head pool ! i) = fd (conn_head pool ! j)"
        unfolding S_def by (elim CollectE exE conjE)
      from that have "\<forall>j < length (conn_head pool).
           gets_message sd allocs (conn_head pool) j \<longrightarrow> fd (conn_head pool ! j) \<noteq> fd (conn_head pool ! i)"
        by (rule conjunct2)
      from this [rule_format, OF j(1,2)] j(3) show False by simp
    qed
    moreover have "write_set pool' = write_set pool \<union> S" unfolding S_def by (rule E)
    ultimately show "(fd (conn_head pool ! i) \<in> write_set pool') = (fd (conn_head pool ! i) \<in> write_set pool)"
      by (simp only: Un_iff simp_thms)
  qed
  from A B C D E F show ?thesis by (intro exI [of _ pool'] conjI)
qed

theorem addMsg_best_effort_witness:
  "(0::int) \<le> 2 \<and> (2::int) \<le> int (length [72, 73 :: byte]) \<and>
   (\<exists>pool'. addMsg 5 [72, 73] 2
        (initPool\<lparr>conn_head := [\<lparr>fd = 5, write_msg_queue = []\<rparr>,
                                \<lparr>fd = 6, write_msg_queue = []\<rparr>,
                                \<lparr>fd = 7, write_msg_queue = []\<rparr>]\<rparr>)
        (\<lambda>k. (k \<noteq> 0, True)) = Inr (0, pool') \<and>
      conn_head pool' ! 0 = \<lparr>fd = 5, write_msg_queue = []\<rparr> \<and>
      conn_head pool' ! 1 = \<lparr>fd = 6, write_msg_queue = []\<rparr> \<and>
      conn_head pool' ! 2 = \<lparr>fd = 7, write_msg_queue = [Live \<lparr>message = [72, 73], msg_size = 2\<rparr>]\<rparr> \<and>
      6 \<notin> write_set pool' \<and> 7 \<in> write_set pool')"
proof -
  let ?cs = "[\<lparr>fd = 5, write_msg_queue = []\<rparr>, \<lparr>fd = 6, write_msg_queue = []\<rparr>,
              \<lparr>fd = 7, write_msg_queue = []\<rparr>]"
  let ?pool = "initPool\<lparr>conn_head := ?cs\<rparr>"
  let ?allocs = "\<lambda>k::nat. (k \<noteq> 0, True)"
  have h: "(0::int) \<le> 2" "(2::int) \<le> int (length [72, 73 :: byte])" by simp_all
  have g: "\<not> gets_message 5 ?allocs ?cs 0" "\<not> gets_message 5 ?allocs ?cs 1"
          "gets_message 5 ?allocs ?cs 2"
    by (simp_all add: gets_message_def call_index_def)
  from addMsg_best_effort [OF h, of 5 ?pool ?allocs] obtain pool' where
    pp: "addMsg 5 [72, 73] 2 ?pool ?allocs = Inr (0, pool') \<and>
     pool' = ?pool\<lparr>conn_head := conn_head pool', write_set := write_set pool'\<rparr> \<and>
     length (conn_head pool') = length (conn_head ?pool) \<and>
     (\<forall>i < length (conn_head ?pool). conn_head pool' ! i =
        (if gets_message 5 ?allocs (conn_head ?pool) i
         then (conn_head ?pool ! i)\<lparr>write_msg_queue :=
                 write_msg_queue (conn_head ?pool ! i)
                   @ [Live \<lparr>message = take (nat 2) [72, 73], msg_size = 2\<rparr>]\<rparr>
         else conn_head ?pool ! i)) \<and>
     write_set pool' = write_set ?pool \<union>
        {fd (conn_head ?pool ! i) | i. i < length (conn_head ?pool) \<and> gets_message 5 ?allocs (conn_head ?pool) i} \<and>
     (\<forall>i < length (conn_head ?pool).
        \<not> gets_message 5 ?allocs (conn_head ?pool) i \<and>
        (\<forall>j < length (conn_head ?pool).
           gets_message 5 ?allocs (conn_head ?pool) j \<longrightarrow> fd (conn_head ?pool ! j) \<noteq> fd (conn_head ?pool ! i))
        \<longrightarrow> (fd (conn_head ?pool ! i) \<in> write_set pool') = (fd (conn_head ?pool ! i) \<in> write_set ?pool))"
    ..
  have p1: "addMsg 5 [72, 73] 2 ?pool ?allocs = Inr (0, pool')"
    using pp by (elim conjE)
  have p2: "\<forall>i < length (conn_head ?pool). conn_head pool' ! i =
          (if gets_message 5 ?allocs (conn_head ?pool) i
           then (conn_head ?pool ! i)\<lparr>write_msg_queue := write_msg_queue (conn_head ?pool ! i) @ [Live \<lparr>message = take (nat 2) [72, 73], msg_size = 2\<rparr>]\<rparr>
           else conn_head ?pool ! i)"
    using pp by (elim conjE)
  have p3: "write_set pool' = write_set ?pool \<union> {fd (conn_head ?pool ! i) | i. i < length (conn_head ?pool) \<and> gets_message 5 ?allocs (conn_head ?pool) i}"
    using pp by (elim conjE)
  have cs: "conn_head ?pool = ?cs" by simp
  have c0: "conn_head pool' ! 0 = \<lparr>fd = 5, write_msg_queue = []\<rparr>"
    using p2 [rule_format, of 0] g unfolding cs by simp
  have c1: "conn_head pool' ! 1 = \<lparr>fd = 6, write_msg_queue = []\<rparr>"
    using p2 [rule_format, of 1] g unfolding cs by simp
  have c2: "conn_head pool' ! 2 = \<lparr>fd = 7, write_msg_queue = [Live \<lparr>message = [72, 73], msg_size = 2\<rparr>]\<rparr>"
    using p2 [rule_format, of 2] g unfolding cs by simp
  have w7: "7 \<in> write_set pool'"
  proof -
    have "(2::nat) < length ?cs \<and> gets_message 5 ?allocs ?cs 2 \<and> (7::int) = fd (?cs ! 2)"
      using g by simp
    then have "7 \<in> {fd (?cs ! i) | i. i < length ?cs \<and> gets_message 5 ?allocs ?cs i}"
      by blast
    then show ?thesis using p3 unfolding cs by simp
  qed
  have w6: "6 \<notin> write_set pool'"
  proof
    assume "6 \<in> write_set pool'"
    then have "6 \<in> {fd (?cs ! i) | i. i < length ?cs \<and> gets_message 5 ?allocs ?cs i}"
      using p3 unfolding cs by (simp add: initPool_def)
    then obtain i where i: "i < length ?cs" "gets_message 5 ?allocs ?cs i" "6 = fd (?cs ! i)"
      by blast
    from i(1) have "i = 0 \<or> i = 1 \<or> i = 2" by auto
    with i(2,3) g show False by auto
  qed
  from h p1 c0 c1 c2 w6 w7 show ?thesis by simp
qed

section \<open>The upper bound of the descriptors\<close>

lemma updateMaxFd_loop_Max:
  "updateMaxFd_loop max_fd cs = Max (insert max_fd (fd ` set cs))"
proof (induction cs arbitrary: max_fd)
  case Nil
  show ?case by simp
next
  case (Cons c cs)
  have m: "(if max_fd < fd c then fd c else max_fd) = max max_fd (fd c)"
    by (simp add: max_def)
  have fin: "finite (fd ` set cs)" by simp
  have "Max (insert (max max_fd (fd c)) (fd ` set cs))
        = Max (insert max_fd (insert (fd c) (fd ` set cs)))"
  proof (cases "fd ` set cs = {}")
    case True
    then show ?thesis by simp
  next
    case False
    then show ?thesis using fin by (simp add: max.assoc)
  qed
  with m have "Max (insert (if max_fd < fd c then fd c else max_fd) (fd ` set cs))
        = Max (insert max_fd (insert (fd c) (fd ` set cs)))"
    by (simp only:)
  then show ?case by (simp add: Cons.IH)
qed

lemma maxfd_updateMaxFd:
  "maxfd (updateMaxFd pool w) = Max (insert w (fd ` set (conn_head (updateMaxFd pool w))))"
  by (simp add: updateMaxFd_def updateMaxFd_loop_Max)

lemma maxfd_removeConn:
  "removeConn sd pool = Inr (ret, pool', evs) \<Longrightarrow> maxfd pool' = maxfd pool"
  by (auto simp: removeConn_def split: option.splits sum.splits)

lemma maxfd_cleanup_loop:
  "cleanup_loop cs pool = Inr (pool', evs) \<Longrightarrow> maxfd pool' = maxfd pool"
proof (induction cs arbitrary: pool pool' evs)
  case Nil
  then show ?case by simp
next
  case (Cons c cs)
  from Cons.prems obtain ret p1 e1 e2 where
    r: "removeConn (fd c) pool = Inr (ret, p1, e1)" and l: "cleanup_loop cs p1 = Inr (pool', e2)"
    by (auto split: sum.splits)
  from Cons.IH [OF l] maxfd_removeConn [OF r] show ?case by simp
qed

text \<open>
  Claim C5, as the code has it. After a successful \<open>acceptNewConnection\<close> (the add the
  dispatcher performs) and after the removal on a closed peer in
  \<open>processDataFromConnection\<close>, \<open>maxfd\<close> is the maximum of the listening descriptor and
  the descriptors of the connections then in the pool. The removals of the shutdown loop
  do not recompute it: \<open>cleanup\<close> returns the pool with the \<open>maxfd\<close> it had.
\<close>

theorem maxfd_after_add_and_remove:
  "(acceptNewConnection welcome_socket pool new_socket alloc = (0, pool1, evs1)
      \<longrightarrow> maxfd pool1 = Max (insert welcome_socket (fd ` set (conn_head pool1)))) \<and>
   (processDataFromConnection sd pool welcome_socket (ReadBytes []) allocs = Inr (pool2, evs2)
      \<longrightarrow> maxfd pool2 = Max (insert welcome_socket (fd ` set (conn_head pool2)))) \<and>
   (cleanup welcome_socket pool = Inr (pool3, evs3) \<longrightarrow> maxfd pool3 = maxfd pool)"
proof (intro conjI impI)
  assume "acceptNewConnection welcome_socket pool new_socket alloc = (0, pool1, evs1)"
  then obtain p where "pool1 = updateMaxFd p welcome_socket"
    by (auto simp: acceptNewConnection_def split: if_splits prod.splits)
  then show "maxfd pool1 = Max (insert welcome_socket (fd ` set (conn_head pool1)))"
    by (simp add: maxfd_updateMaxFd)
next
  assume "processDataFromConnection sd pool welcome_socket (ReadBytes []) allocs = Inr (pool2, evs2)"
  then obtain p where "pool2 = updateMaxFd p welcome_socket"
    by (auto simp: processDataFromConnection_def sys_read_def split: sum.splits)
  then show "maxfd pool2 = Max (insert welcome_socket (fd ` set (conn_head pool2)))"
    by (simp add: maxfd_updateMaxFd)
next
  assume "cleanup welcome_socket pool = Inr (pool3, evs3)"
  then obtain e where "cleanup_loop (conn_head pool) pool = Inr (pool3, e)"
    by (auto simp: cleanup_def split: sum.splits)
  then show "maxfd pool3 = maxfd pool" by (rule maxfd_cleanup_loop)
qed


theorem maxfd_after_add_and_remove_witness:
  "acceptNewConnection 3
     (initPool\<lparr>conn_head := [\<lparr>fd = 5, write_msg_queue = []\<rparr>], read_set := {3, 5}, maxfd := 5, nr_conns := 1\<rparr>)
     7 True
   = (0, initPool\<lparr>conn_head := [\<lparr>fd = 7, write_msg_queue = []\<rparr>, \<lparr>fd = 5, write_msg_queue = []\<rparr>],
                 read_set := {7, 3, 5}, maxfd := 7, nr_conns := 2\<rparr>, []) \<and>
   maxfd (initPool\<lparr>conn_head := [\<lparr>fd = 7, write_msg_queue = []\<rparr>, \<lparr>fd = 5, write_msg_queue = []\<rparr>],
                 read_set := {7, 3, 5}, maxfd := 7, nr_conns := 2\<rparr>) = 7 \<and>
   processDataFromConnection 5
     (initPool\<lparr>conn_head := [\<lparr>fd = 5, write_msg_queue = []\<rparr>], read_set := {3, 5}, maxfd := 5, nr_conns := 1\<rparr>)
     3 (ReadBytes []) (\<lambda>k. (True, True))
   = Inr (initPool\<lparr>conn_head := [], read_set := {3}, maxfd := 3, nr_conns := 0\<rparr>, [Close 5]) \<and>
   cleanup 3
     (initPool\<lparr>conn_head := [\<lparr>fd = 5, write_msg_queue = []\<rparr>], read_set := {3, 5}, maxfd := 5, nr_conns := 1\<rparr>)
   = Inr (initPool\<lparr>conn_head := [], read_set := {3}, maxfd := 5, nr_conns := 0\<rparr>, [Close 5, Close 3])"
proof -
  let ?P = "initPool\<lparr>conn_head := [\<lparr>fd = 5, write_msg_queue = []\<rparr>], read_set := {3, 5}, maxfd := 5, nr_conns := 1\<rparr>"
  let ?P1 = "initPool\<lparr>conn_head := [\<lparr>fd = 7, write_msg_queue = []\<rparr>, \<lparr>fd = 5, write_msg_queue = []\<rparr>],
                 read_set := {7, 3, 5}, maxfd := 7, nr_conns := 2\<rparr>"
  let ?P2 = "initPool\<lparr>conn_head := [], read_set := {3}, maxfd := 3, nr_conns := 0\<rparr>"
  let ?P3 = "initPool\<lparr>conn_head := [], read_set := {3}, maxfd := 5, nr_conns := 0\<rparr>"
  have s: "{3, 5} - {5} = {3 :: int}" by auto
  have a: "acceptNewConnection 3 ?P 7 True = (0, ?P1, [])"
    by (simp add: acceptNewConnection_def addConn_def updateMaxFd_def initPool_def)
  have b: "processDataFromConnection 5 ?P 3 (ReadBytes []) (\<lambda>k. (True, True)) = Inr (?P2, [Close 5])"
    by (simp add: processDataFromConnection_def sys_read_def removeConn_def freeMessagesInQueue_def
        updateMaxFd_def initPool_def s)
  have c: "cleanup 3 ?P = Inr (?P3, [Close 5, Close 3])"
    by (simp add: cleanup_def removeConn_def freeMessagesInQueue_def initPool_def s)
  from maxfd_after_add_and_remove [of 3 ?P 7 True ?P1 "[]" 5 "\<lambda>k. (True, True)" ?P2 "[Close 5]" ?P3 "[Close 5, Close 3]"]
    a b c
  have "maxfd ?P1 = Max (insert 3 (fd ` set (conn_head ?P1)))" by blast
  then have "maxfd ?P1 = 7" by simp
  with a b c show ?thesis by blast
qed

text \<open>
  The claim as stated fails at shutdown: with the listening socket 3 and one connection
  on descriptor 5 the pool starts with \<open>maxfd = 5\<close>, the maximum; after the shutdown loop
  has removed the connection \<open>maxfd\<close> is still 5, while the maximum is 3.
\<close>

theorem cleanup_leaves_maxfd_stale:
  "maxfd (initPool\<lparr>conn_head := [\<lparr>fd = 5, write_msg_queue = []\<rparr>], read_set := {3, 5}, maxfd := 5, nr_conns := 1\<rparr>)
     = Max (insert 3 (fd ` set (conn_head
         (initPool\<lparr>conn_head := [\<lparr>fd = 5, write_msg_queue = []\<rparr>], read_set := {3, 5}, maxfd := 5, nr_conns := 1\<rparr>)))) \<and>
   cleanup 3
     (initPool\<lparr>conn_head := [\<lparr>fd = 5, write_msg_queue = []\<rparr>], read_set := {3, 5}, maxfd := 5, nr_conns := 1\<rparr>)
   = Inr (initPool\<lparr>conn_head := [], read_set := {3}, maxfd := 5, nr_conns := 0\<rparr>, [Close 5, Close 3]) \<and>
   maxfd (initPool\<lparr>conn_head := [], read_set := {3}, maxfd := 5, nr_conns := 0\<rparr>)
     \<noteq> Max (insert 3 (fd ` set (conn_head
         (initPool\<lparr>conn_head := [], read_set := {3}, maxfd := 5, nr_conns := 0\<rparr>))))"
proof -
  have "{3, 5} - {5} = {3 :: int}" by auto
  then show ?thesis
    by (simp add: cleanup_def removeConn_def freeMessagesInQueue_def initPool_def)
qed

section \<open>Closed peers and failed writes in the dispatcher\<close>

lemma free_nodes_live: "Freed \<notin> set q \<Longrightarrow> free_nodes q = Inr ()"
proof (induction q)
  case Nil
  show ?case by simp
next
  case (Cons n q)
  then show ?case by (cases n) simp_all
qed

lemma removeConn_found:
  assumes "find_conn sd (conn_head pool) = Some (before, c, after)"
    and "Freed \<notin> set (write_msg_queue c)"
  shows "removeConn sd pool =
     Inr (0, pool\<lparr>conn_head := before @ after, read_set := read_set pool - {sd},
                    write_set := write_set pool - {sd}, nr_conns := nr_conns pool - 1\<rparr>,
          [Close sd])"
  using assms by (simp add: removeConn_def freeMessagesInQueue_def free_nodes_live)

lemma writeToClient_fds:
  assumes "writeToClient sd pool writes = Inr (ret, pool', evs)"
  shows "map fd (conn_head pool') = map fd (conn_head pool)"
proof (cases "find_conn sd (conn_head pool)")
  case None
  with assms show ?thesis by (simp add: writeToClient_def)
next
  case (Some t)
  then obtain before c after where t: "find_conn sd (conn_head pool) = Some (before, c, after)"
    by (cases t) auto
  from find_conn_Some [OF t] have cs: "conn_head pool = before @ c # after" by simp
  from assms t obtain q where "conn_head pool' = before @ [c\<lparr>write_msg_queue := q\<rparr>] @ after"
    by (auto simp: writeToClient_def split: sum.splits)
  with cs show ?thesis by simp
qed

lemma serve_write_fds:
  assumes "serve_write sd pool env evs = Inr (pool', evs')"
  shows "map fd (conn_head pool') = map fd (conn_head pool)"
proof (cases "sd \<in> ready_write_set pool")
  case False
  with assms show ?thesis by (simp add: serve_write_def)
next
  case True
  with assms obtain ret p e where w: "writeToClient sd pool (write_rets env) = Inr (ret, p, e)"
    and p: "pool' = p\<lparr>nready := nready p - 1\<rparr>"
    by (auto simp: serve_write_def split: sum.splits)
  from writeToClient_fds [OF w] p show ?thesis by simp
qed

lemma serve_write_absent:
  assumes "sd \<notin> fd ` set (conn_head pool)"
  shows "\<exists>pool'. serve_write sd pool env evs = Inr (pool', evs) \<and>
            conn_head pool' = conn_head pool \<and> read_set pool' = read_set pool \<and>
            write_set pool' = write_set pool"
proof -
  have "find_conn sd (conn_head pool) = None" using assms by (simp add: find_conn_None)
  then show ?thesis by (simp add: serve_write_def writeToClient_def)
qed

text \<open>
  Claim C4, as the code has it. A client descriptor that is ready for reading and whose
  read returns zero: when the pool's descriptors are distinct and the connection's queue
  holds no node freed by an earlier drain, serving the descriptor removes the connection
  together with its queued messages; no connection with that descriptor remains, the
  descriptor is cleared from both interest sets and closed. A descriptor that is served
  for writing only keeps every connection of the pool, whatever its writes return: a
  failed write does not remove the connection.
\<close>

theorem peer_close_removes_write_failure_keeps:
  "(sd \<noteq> welcome_socket \<and> sd \<in> ready_read_set pool \<and> read_ret env = ReadBytes [] \<and>
    distinct (map fd (conn_head pool)) \<and>
    find_conn sd (conn_head pool) = Some (before, c, after) \<and> Freed \<notin> set (write_msg_queue c)
    \<longrightarrow> (\<exists>pool' evs. serve_descriptor sd welcome_socket pool env = Inr (pool', evs) \<and>
           conn_head pool' = before @ after \<and> sd \<notin> fd ` set (conn_head pool') \<and>
           sd \<notin> read_set pool' \<and> sd \<notin> write_set pool' \<and> evs = [Close sd])) \<and>
   (sd \<notin> ready_read_set pool \<and> serve_descriptor sd welcome_socket pool env = Inr (pool2, evs2)
    \<longrightarrow> map fd (conn_head pool2) = map fd (conn_head pool))"
proof (intro conjI impI)
  assume h: "sd \<noteq> welcome_socket \<and> sd \<in> ready_read_set pool \<and> read_ret env = ReadBytes [] \<and>
    distinct (map fd (conn_head pool)) \<and>
    find_conn sd (conn_head pool) = Some (before, c, after) \<and> Freed \<notin> set (write_msg_queue c)"
  then have f: "find_conn sd (conn_head pool) = Some (before, c, after)"
    and live: "Freed \<notin> set (write_msg_queue c)"
    and d: "distinct (map fd (conn_head pool))" by simp_all
  define p1 where "p1 = pool\<lparr>conn_head := before @ after, read_set := read_set pool - {sd},
                    write_set := write_set pool - {sd}, nr_conns := nr_conns pool - 1\<rparr>"
  define p2 where "p2 = (updateMaxFd p1 welcome_socket)\<lparr>nready := nready (updateMaxFd p1 welcome_socket) - 1\<rparr>"
  have rm: "removeConn sd pool = Inr (0, p1, [Close sd])"
    unfolding p1_def by (rule removeConn_found [OF f live])
  have pd: "processDataFromConnection sd pool welcome_socket (ReadBytes []) (msg_allocs env)
        = Inr (updateMaxFd p1 welcome_socket, [Close sd])"
    by (simp add: processDataFromConnection_def sys_read_def rm)
  have sv: "serve_descriptor sd welcome_socket pool env = serve_write sd p2 env [Close sd]"
    using h by (simp add: serve_descriptor_def pd p2_def)
  from find_conn_Some [OF f] have cs: "conn_head pool = before @ c # after" "fd c = sd" by simp_all
  have p2f: "conn_head p2 = before @ after" "read_set p2 = read_set pool - {sd}"
    "write_set p2 = write_set pool - {sd}"
    by (simp_all add: p2_def p1_def updateMaxFd_def)
  have absent: "sd \<notin> fd ` set (conn_head p2)"
    using d cs unfolding p2f by auto
  from serve_write_absent [OF absent, of env "[Close sd]"] obtain pool' where
    p': "serve_write sd p2 env [Close sd] = Inr (pool', [Close sd])"
        "conn_head pool' = conn_head p2" "read_set pool' = read_set p2" "write_set pool' = write_set p2"
    by blast
  have "serve_descriptor sd welcome_socket pool env = Inr (pool', [Close sd]) \<and>
           conn_head pool' = before @ after \<and> sd \<notin> fd ` set (conn_head pool') \<and>
           sd \<notin> read_set pool' \<and> sd \<notin> write_set pool' \<and> [Close sd] = [Close sd]"
    using sv p' p2f absent by simp
  then show "\<exists>pool' evs. serve_descriptor sd welcome_socket pool env = Inr (pool', evs) \<and>
           conn_head pool' = before @ after \<and> sd \<notin> fd ` set (conn_head pool') \<and>
           sd \<notin> read_set pool' \<and> sd \<notin> write_set pool' \<and> evs = [Close sd]"
    by (intro exI)
next
  assume a: "sd \<notin> ready_read_set pool \<and> serve_descriptor sd welcome_socket pool env = Inr (pool2, evs2)"
  then have "serve_descriptor sd welcome_socket pool env = serve_write sd pool env []"
    by (simp add: serve_descriptor_def)
  with a have "serve_write sd pool env [] = Inr (pool2, evs2)"
    by simp
  then show "map fd (conn_head pool2) = map fd (conn_head pool)" by (rule serve_write_fds)
qed


text \<open>
  The claim as stated fails for a failed write: descriptor 5 is ready for writing, its
  one write returns \<open>-1\<close>, and after the dispatcher has served the descriptor the
  connection is still in the pool.
\<close>

theorem write_failure_leaves_connection_in_pool:
  "write_rets \<lparr>accept_ret = - 1, conn_alloc = True, read_ret = ReadError,
               msg_allocs = (\<lambda>k. (True, True)), write_rets = (\<lambda>i. - 1)\<rparr> 0 \<le> 0 \<and>
   serve_descriptor 5 3
     (initPool\<lparr>conn_head := [\<lparr>fd = 5, write_msg_queue = [Live \<lparr>message = [72], msg_size = 1\<rparr>]\<rparr>],
               read_set := {3, 5}, write_set := {5}, ready_write_set := {5},
               maxfd := 5, nready := 1, nr_conns := 1\<rparr>)
     \<lparr>accept_ret = - 1, conn_alloc = True, read_ret = ReadError,
      msg_allocs = (\<lambda>k. (True, True)), write_rets = (\<lambda>i. - 1)\<rparr>
   = Inr (initPool\<lparr>conn_head := [\<lparr>fd = 5, write_msg_queue = [Live \<lparr>message = [72], msg_size = 1\<rparr>]\<rparr>],
                    read_set := {3, 5}, write_set := {}, ready_write_set := {5},
                    maxfd := 5, nready := 0, nr_conns := 1\<rparr>,
          [Write 5 [72] 1]) \<and>
   5 \<in> fd ` set (conn_head
     (initPool\<lparr>conn_head := [\<lparr>fd = 5, write_msg_queue = [Live \<lparr>message = [72], msg_size = 1\<rparr>]\<rparr>],
                    read_set := {3, 5}, write_set := {}, ready_write_set := {5},
                    maxfd := 5, nready := 0, nr_conns := 1\<rparr>))"
  by (simp add: serve_descriptor_def serve_write_def writeToClient_def initPool_def)

theorem peer_close_removes_write_failure_keeps_witness:
  "(5::int) \<noteq> 3 \<and>
   5 \<in> ready_read_set
     (initPool\<lparr>conn_head := [\<lparr>fd = 5, write_msg_queue = [Live \<lparr>message = [72], msg_size = 1\<rparr>]\<rparr>,
                             \<lparr>fd = 6, write_msg_queue = []\<rparr>],
               read_set := {3, 5, 6}, write_set := {5}, ready_read_set := {5},
               maxfd := 6, nready := 1, nr_conns := 2\<rparr>) \<and>
   distinct (map fd (conn_head
     (initPool\<lparr>conn_head := [\<lparr>fd = 5, write_msg_queue = [Live \<lparr>message = [72], msg_size = 1\<rparr>]\<rparr>,
                             \<lparr>fd = 6, write_msg_queue = []\<rparr>],
               read_set := {3, 5, 6}, write_set := {5}, ready_read_set := {5},
               maxfd := 6, nready := 1, nr_conns := 2\<rparr>))) \<and>
   (\<exists>pool'. serve_descriptor 5 3
     (initPool\<lparr>conn_head := [\<lparr>fd = 5, write_msg_queue = [Live \<lparr>message = [72], msg_size = 1\<rparr>]\<rparr>,
                             \<lparr>fd = 6, write_msg_queue = []\<rparr>],
               read_set := {3, 5, 6}, write_set := {5}, ready_read_set := {5},
               maxfd := 6, nready := 1, nr_conns := 2\<rparr>)
     \<lparr>accept_ret = - 1, conn_alloc = True, read_ret = ReadBytes [],
      msg_allocs = (\<lambda>k. (True, True)), write_rets = (\<lambda>i. 1)\<rparr>
     = Inr (pool', [Close 5]) \<and>
     conn_head pool' = [\<lparr>fd = 6, write_msg_queue = []\<rparr>] \<and> 5 \<notin> fd ` set (conn_head pool')) \<and>
   6 \<notin> ready_read_set
     (initPool\<lparr>conn_head := [\<lparr>fd = 6, write_msg_queue = [Live \<lparr>message = [72], msg_size = 1\<rparr>]\<rparr>],
               read_set := {3, 6}, write_set := {6}, ready_write_set := {6},
               maxfd := 6, nready := 1, nr_conns := 1\<rparr>) \<and>
   serve_descriptor 6 3
     (initPool\<lparr>conn_head := [\<lparr>fd = 6, write_msg_queue = [Live \<lparr>message = [72], msg_size = 1\<rparr>]\<rparr>],
               read_set := {3, 6}, write_set := {6}, ready_write_set := {6},
               maxfd := 6, nready := 1, nr_conns := 1\<rparr>)
     \<lparr>accept_ret = - 1, conn_alloc = True, read_ret = ReadError,
      msg_allocs = (\<lambda>k. (True, True)), write_rets = (\<lambda>i. 0)\<rparr>
   = Inr (initPool\<lparr>conn_head := [\<lparr>fd = 6, write_msg_queue = [Live \<lparr>message = [72], msg_size = 1\<rparr>]\<rparr>],
                    read_set := {3, 6}, write_set := {}, ready_write_set := {6},
                    maxfd := 6, nready := 0, nr_conns := 1\<rparr>,
          [Write 6 [72] 1]) \<and>
   map fd (conn_head
     (initPool\<lparr>conn_head := [\<lparr>fd = 6, write_msg_queue = [Live \<lparr>message = [72], msg_size = 1\<rparr>]\<rparr>],
                    read_set := {3, 6}, write_set := {}, ready_write_set := {6},
                    maxfd := 6, nready := 0, nr_conns := 1\<rparr>)) = [6]"
proof -
  let ?c5 = "\<lparr>fd = 5, write_msg_queue = [Live \<lparr>message = [72], msg_size = 1\<rparr>]\<rparr>"
  let ?c6 = "\<lparr>fd = 6, write_msg_queue = []\<rparr>"
  let ?P = "initPool\<lparr>conn_head := [?c5, ?c6],
               read_set := {3, 5, 6}, write_set := {5}, ready_read_set := {5},
               maxfd := 6, nready := 1, nr_conns := 2\<rparr>"
  let ?env = "\<lparr>accept_ret = - 1, conn_alloc = True, read_ret = ReadBytes [],
      msg_allocs = (\<lambda>k. (True, True)), write_rets = (\<lambda>i. 1)\<rparr>"
  have h: "(5::int) \<noteq> 3 \<and> 5 \<in> ready_read_set ?P \<and> read_ret ?env = ReadBytes [] \<and>
    distinct (map fd (conn_head ?P)) \<and>
    find_conn 5 (conn_head ?P) = Some ([], ?c5, [?c6]) \<and> Freed \<notin> set (write_msg_queue ?c5)"
    by simp
  from peer_close_removes_write_failure_keeps [of 5 3 ?P ?env "[]" ?c5 "[?c6]", THEN conjunct1, rule_format, OF h]
  obtain pool' evs where
    r: "serve_descriptor 5 3 ?P ?env = Inr (pool', evs) \<and>
           conn_head pool' = [] @ [?c6] \<and> 5 \<notin> fd ` set (conn_head pool') \<and>
           5 \<notin> read_set pool' \<and> 5 \<notin> write_set pool' \<and> evs = [Close 5]"
    by (elim exE)
  then have "serve_descriptor 5 3 ?P ?env = Inr (pool', [Close 5]) \<and>
     conn_head pool' = [?c6] \<and> 5 \<notin> fd ` set (conn_head pool')"
    by simp
  then have "\<exists>pool'. serve_descriptor 5 3 ?P ?env = Inr (pool', [Close 5]) \<and>
     conn_head pool' = [?c6] \<and> 5 \<notin> fd ` set (conn_head pool')"
    by (rule exI)
  note part1 = this
  let ?Q = "initPool\<lparr>conn_head := [\<lparr>fd = 6, write_msg_queue = [Live \<lparr>message = [72], msg_size = 1\<rparr>]\<rparr>],
               read_set := {3, 6}, write_set := {6}, ready_write_set := {6},
               maxfd := 6, nready := 1, nr_conns := 1\<rparr>"
  let ?Q' = "initPool\<lparr>conn_head := [\<lparr>fd = 6, write_msg_queue = [Live \<lparr>message = [72], msg_size = 1\<rparr>]\<rparr>],
                    read_set := {3, 6}, write_set := {}, ready_write_set := {6},
                    maxfd := 6, nready := 0, nr_conns := 1\<rparr>"
  let ?env2 = "\<lparr>accept_ret = - 1, conn_alloc = True, read_ret = ReadError,
      msg_allocs = (\<lambda>k. (True, True)), write_rets = (\<lambda>i. 0)\<rparr>"
  have e: "6 \<notin> ready_read_set ?Q \<and> serve_descriptor 6 3 ?Q ?env2 = Inr (?Q', [Write 6 [72] 1])"
    by (simp add: serve_descriptor_def serve_write_def writeToClient_def initPool_def)
  from peer_close_removes_write_failure_keeps [of 6 3 ?Q ?env2 "[]" ?c5 "[]" ?Q' "[Write 6 [72] 1]",
      THEN conjunct2, rule_format, OF e]
  have "map fd (conn_head ?Q') = map fd (conn_head ?Q)" .
  then have part2: "map fd (conn_head ?Q') = [6]" by simp
  from h part1 e part2 show ?thesis by simp
qed

section \<open>Draining a queue\<close>

text \<open>
  What the write loop does on a queue of live messages. When every write returns a
  positive count, all messages are written in queue order and the queue ends empty. When
  the write of the message at position \<open>j\<close> is the first to fail, exactly the first
  \<open>j + 1\<close> messages are passed to \<open>write\<close>, in queue order, and the loop stops; the
  \<open>j\<close> nodes written before are freed but the head pointer is not moved, so they stay
  in front of the unsent messages. In both cases the descriptor is cleared from
  \<open>write_set\<close>.
\<close>

lemma write_loop_all_succeed:
  "(\<forall>i < length ms. 0 < writes (k + i)) \<Longrightarrow>
   write_loop sd writes k (map Live ms) =
     Inr (replicate (length ms) Freed, map (\<lambda>m. Write sd (message m) (msg_size m)) ms, False)"
proof (induction ms arbitrary: k)
  case Nil
  show ?case by simp
next
  case (Cons m ms)
  from Cons.prems have "0 < writes (k + 0)" by blast
  then have w: "\<not> writes k \<le> 0" by simp
  have "\<forall>i < length ms. 0 < writes (Suc k + i)"
  proof (intro allI impI)
    fix i assume "i < length ms"
    then have "Suc i < length (m # ms)" by simp
    with Cons.prems have "0 < writes (k + Suc i)" by blast
    then show "0 < writes (Suc k + i)" by simp
  qed
  from Cons.IH [OF this] w show ?case by simp
qed

lemma write_loop_first_failure:
  "j < length ms \<Longrightarrow> (\<forall>i < j. 0 < writes (k + i)) \<Longrightarrow> writes (k + j) \<le> 0 \<Longrightarrow>
   write_loop sd writes k (map Live ms) =
     Inr (replicate j Freed @ map Live (drop j ms),
          map (\<lambda>m. Write sd (message m) (msg_size m)) (take (Suc j) ms), True)"
proof (induction ms arbitrary: k j)
  case Nil
  then show ?case by simp
next
  case (Cons m ms)
  show ?case
  proof (cases j)
    case 0
    with Cons.prems show ?thesis by simp
  next
    case (Suc j')
    with Cons.prems have "0 < writes (k + 0)" by blast
    then have w: "\<not> writes k \<le> 0" by simp
    have a: "j' < length ms" using Cons.prems Suc by simp
    have b: "\<forall>i < j'. 0 < writes (Suc k + i)"
    proof (intro allI impI)
      fix i assume "i < j'"
      then have "Suc i < j" using Suc by simp
      with Cons.prems have "0 < writes (k + Suc i)" by blast
      then show "0 < writes (Suc k + i)" by simp
    qed
    have c: "writes (Suc k + j') \<le> 0" using Cons.prems Suc by simp
    from Cons.IH [OF a b c] w Suc show ?thesis by simp
  qed
qed

lemma writeToClient_all_succeed:
  assumes "find_conn sd (conn_head pool) = Some (before, c, after)"
    and "write_msg_queue c = map Live ms"
    and "\<forall>i < length ms. 0 < writes i"
  shows "writeToClient sd pool writes =
     Inr (0, pool\<lparr>conn_head := before @ [c\<lparr>write_msg_queue := []\<rparr>] @ after,
                    write_set := write_set pool - {sd}\<rparr>,
          map (\<lambda>m. Write sd (message m) (msg_size m)) ms)"
proof -
  from assms(3) have "\<forall>i < length ms. 0 < writes (0 + i)" by simp
  from write_loop_all_succeed [OF this] assms(1,2) show ?thesis
    by (simp add: writeToClient_def)
qed

lemma writeToClient_first_failure:
  assumes "find_conn sd (conn_head pool) = Some (before, c, after)"
    and "write_msg_queue c = map Live ms"
    and "j < length ms" "\<forall>i < j. 0 < writes i" "writes j \<le> 0"
  shows "writeToClient sd pool writes =
     Inr (0, pool\<lparr>conn_head :=
                      before @ [c\<lparr>write_msg_queue := replicate j Freed @ map Live (drop j ms)\<rparr>] @ after,
                    write_set := write_set pool - {sd}\<rparr>,
          map (\<lambda>m. Write sd (message m) (msg_size m)) (take (Suc j) ms))"
proof -
  from assms(4) have a: "\<forall>i < j. 0 < writes (0 + i)" by simp
  from assms(5) have b: "writes (0 + j) \<le> 0" by simp
  from write_loop_first_failure [OF assms(3) a b] assms(1,2) show ?thesis
    by (simp add: writeToClient_def)
qed

section \<open>The write-interest invariant\<close>

text \<open>
  On a pool whose descriptors are distinct, adding a connection on a descriptor that is
  not in \<open>write_set\<close>, removing a connection, broadcasting and a drain in which every
  write succeeds all keep the invariant.
\<close>

lemma fd_unique:
  assumes "distinct (map fd (before @ c # after))" "x \<in> set (before @ after)"
  shows "fd x \<noteq> fd c"
proof -
  from assms(1) have n: "fd c \<notin> fd ` set before" "fd c \<notin> fd ` set after" by auto
  show ?thesis
  proof
    assume e: "fd x = fd c"
    from assms(2) have "x \<in> set before \<or> x \<in> set after" by simp
    then have "fd x \<in> fd ` set before \<or> fd x \<in> fd ` set after" by blast
    with e n show False by simp
  qed
qed

lemma addConn_keeps_invariant:
  assumes "write_interest_invariant pool" "sd \<notin> write_set pool"
  shows "write_interest_invariant (fst (snd (addConn sd pool alloc)))"
  using assms by (simp add: addConn_def write_interest_invariant_def)

lemma removeConn_keeps_invariant:
  assumes "write_interest_invariant pool" "distinct (map fd (conn_head pool))"
    and "removeConn sd pool = Inr (ret, pool', evs)"
  shows "write_interest_invariant pool'"
proof (cases "find_conn sd (conn_head pool)")
  case None
  with assms show ?thesis by (simp add: removeConn_def)
next
  case (Some t)
  then obtain before c after where t: "find_conn sd (conn_head pool) = Some (before, c, after)"
    by (cases t) auto
  from find_conn_Some [OF t] have cs: "conn_head pool = before @ c # after" "fd c = sd" by simp_all
  from assms(3) t have p': "conn_head pool' = before @ after" "write_set pool' = write_set pool - {sd}"
    by (auto simp: removeConn_def split: sum.splits)
  have "\<forall>x \<in> set (before @ after). fd x \<noteq> sd"
    using assms(2) fd_unique [of before c after] unfolding cs by blast
  moreover have "\<forall>x \<in> set (before @ after). (fd x \<in> write_set pool) = (write_msg_queue x \<noteq> [])"
    using assms(1) cs by (auto simp: write_interest_invariant_def list_all_iff)
  ultimately show ?thesis
    unfolding write_interest_invariant_def list_all_iff p' by auto
qed

lemma writeToClient_keeps_invariant_on_success:
  assumes "write_interest_invariant pool" "distinct (map fd (conn_head pool))"
    and "find_conn sd (conn_head pool) = Some (before, c, after)"
    and "write_msg_queue c = map Live ms" "\<forall>i < length ms. 0 < writes i"
    and "writeToClient sd pool writes = Inr (ret, pool', evs)"
  shows "write_interest_invariant pool'"
proof -
  from find_conn_Some [OF assms(3)] have cs: "conn_head pool = before @ c # after" "fd c = sd"
    by simp_all
  from assms(5) have "\<forall>i < length ms. 0 < writes (0 + i)" by simp
  from write_loop_all_succeed [OF this] assms(3,4,6)
  have p': "conn_head pool' = before @ [c\<lparr>write_msg_queue := []\<rparr>] @ after"
      "write_set pool' = write_set pool - {sd}"
    by (auto simp: writeToClient_def)
  have "\<forall>x \<in> set (before @ after). fd x \<noteq> sd"
    using assms(2) fd_unique [of before c after] unfolding cs by blast
  moreover have "\<forall>x \<in> set (before @ after). (fd x \<in> write_set pool) = (write_msg_queue x \<noteq> [])"
    using assms(1) cs by (auto simp: write_interest_invariant_def list_all_iff)
  ultimately show ?thesis
    unfolding write_interest_invariant_def list_all_iff p' using cs(2) by auto
qed

lemma addMsg_keeps_invariant:
  assumes inv: "write_interest_invariant pool" and d: "distinct (map fd (conn_head pool))"
    and len: "0 \<le> len" "len \<le> int (length buffer)"
    and r: "addMsg sd buffer len pool allocs = Inr (ret, pool')"
  shows "write_interest_invariant pool'"
proof -
  define cs where "cs = conn_head pool"
  define G where "G = (\<lambda>i. fd (cs ! i) \<noteq> sd
            \<and> fst (allocs (0 + length (filter (\<lambda>x. fd x \<noteq> sd) (take i cs))))
            \<and> snd (allocs (0 + length (filter (\<lambda>x. fd x \<noteq> sd) (take i cs)))))"
  define msg where "msg = \<lparr>message = take (nat len) buffer, msg_size = len\<rparr>"
  from addMsg_loop_nth [OF len, of sd allocs 0 cs "write_set pool"]
  obtain cs' ws' where
    l: "addMsg_loop sd buffer len allocs 0 cs (write_set pool) = Inr (cs', ws')"
       "length cs' = length cs"
       "\<forall>i < length cs. cs' ! i =
          (if G i then (cs ! i)\<lparr>write_msg_queue := write_msg_queue (cs ! i) @ [Live msg]\<rparr> else cs ! i)"
       "ws' = write_set pool \<union> {fd (cs ! i) | i. i < length cs \<and> G i}"
    unfolding G_def msg_def by blast
  from r l(1) have p': "conn_head pool' = cs'" "write_set pool' = ws'"
    by (auto simp: addMsg_def cs_def)
  have old: "(fd (cs ! n) \<in> write_set pool) = (write_msg_queue (cs ! n) \<noteq> [])" if "n < length cs" for n
    using inv that by (simp add: write_interest_invariant_def list_all_length cs_def)
  have "(fd (cs' ! n) \<in> ws') = (write_msg_queue (cs' ! n) \<noteq> [])" if n: "n < length cs'" for n
  proof -
    from n l(2) have n': "n < length cs" by simp
    show ?thesis
    proof (cases "G n")
      case True
      then have "cs' ! n = (cs ! n)\<lparr>write_msg_queue := write_msg_queue (cs ! n) @ [Live msg]\<rparr>"
        using l(3) n' by simp
      moreover have "fd (cs ! n) \<in> ws'"
        unfolding l(4) using True n' by blast
      ultimately show ?thesis by simp
    next
      case False
      then have same: "cs' ! n = cs ! n" using l(3) n' by simp
      define S where "S = {fd (cs ! i) | i. i < length cs \<and> G i}"
      have "fd (cs ! n) \<notin> S"
      proof
        assume "fd (cs ! n) \<in> S"
        then have "fd (cs ! n) \<in> {fd (cs ! i) | i. i < length cs \<and> G i}" by (simp only: S_def)
        then obtain j where j: "j < length cs" "G j" "fd (cs ! n) = fd (cs ! j)" by blast
        have e: "map fd cs ! n = map fd cs ! j" using j(1,3) n' by simp
        have dd: "distinct (map fd cs)" using d by (simp add: cs_def)
        have "n < length (map fd cs)" "j < length (map fd cs)" using j(1) n' by simp_all
        with dd e have "n = j" by (simp only: nth_eq_iff_index_eq)
        with j(2) False show False by simp
      qed
      moreover have "ws' = write_set pool \<union> S" unfolding S_def by (rule l(4))
      ultimately have "(fd (cs ! n) \<in> ws') = (fd (cs ! n) \<in> write_set pool)"
        by (simp only: Un_iff simp_thms)
      with old [OF n'] same show ?thesis by simp
    qed
  qed
  then show ?thesis
    by (simp add: write_interest_invariant_def list_all_length p')
qed

text \<open>
  Claim C2. The invariant is not kept by every operation: a drain whose write fails
  clears the descriptor from \<open>write_set\<close> although the queue is left non-empty. Here the
  pool satisfies the invariant, the single write of the drain returns \<open>-1\<close>, and the
  pool that \<open>writeToClient\<close> returns violates it.
\<close>

theorem failed_drain_breaks_write_interest_invariant:
  "write_interest_invariant
     (initPool\<lparr>conn_head := [\<lparr>fd = 5, write_msg_queue = [Live \<lparr>message = [72], msg_size = 1\<rparr>]\<rparr>],
               read_set := {3, 5}, write_set := {5}, maxfd := 5, nr_conns := 1\<rparr>) \<and>
   writeToClient 5
     (initPool\<lparr>conn_head := [\<lparr>fd = 5, write_msg_queue = [Live \<lparr>message = [72], msg_size = 1\<rparr>]\<rparr>],
               read_set := {3, 5}, write_set := {5}, maxfd := 5, nr_conns := 1\<rparr>)
     (\<lambda>i. - 1)
   = Inr (0, initPool\<lparr>conn_head := [\<lparr>fd = 5, write_msg_queue = [Live \<lparr>message = [72], msg_size = 1\<rparr>]\<rparr>],
                       read_set := {3, 5}, write_set := {}, maxfd := 5, nr_conns := 1\<rparr>,
          [Write 5 [72] 1]) \<and>
   \<not> write_interest_invariant
     (initPool\<lparr>conn_head := [\<lparr>fd = 5, write_msg_queue = [Live \<lparr>message = [72], msg_size = 1\<rparr>]\<rparr>],
               read_set := {3, 5}, write_set := {}, maxfd := 5, nr_conns := 1\<rparr>)"
  by (simp add: write_interest_invariant_def writeToClient_def initPool_def)

text \<open>
  Claim C3. A write that fails after an earlier one has succeeded does not leave the
  remaining queue intact: of the two queued messages the first is written and freed,
  the second write fails, and the connection's queue still starts with the freed node.
  Removing the connection afterwards frees that node a second time.
\<close>

theorem failed_drain_leaves_freed_nodes_in_queue:
  "writeToClient 5
     (initPool\<lparr>conn_head := [\<lparr>fd = 5, write_msg_queue = [Live \<lparr>message = [72], msg_size = 1\<rparr>,
                                                         Live \<lparr>message = [73], msg_size = 1\<rparr>]\<rparr>],
               read_set := {3, 5}, write_set := {5}, maxfd := 5, nr_conns := 1\<rparr>)
     (\<lambda>i. if i = 0 then 1 else - 1)
   = Inr (0, initPool\<lparr>conn_head := [\<lparr>fd = 5, write_msg_queue = [Freed, Live \<lparr>message = [73], msg_size = 1\<rparr>]\<rparr>],
                       read_set := {3, 5}, write_set := {}, maxfd := 5, nr_conns := 1\<rparr>,
          [Write 5 [72] 1, Write 5 [73] 1]) \<and>
   removeConn 5
     (initPool\<lparr>conn_head := [\<lparr>fd = 5, write_msg_queue = [Freed, Live \<lparr>message = [73], msg_size = 1\<rparr>]\<rparr>],
               read_set := {3, 5}, write_set := {}, maxfd := 5, nr_conns := 1\<rparr>)
   = Inl UseAfterFree"
  by (simp add: writeToClient_def removeConn_def freeMessagesInQueue_def initPool_def)

section \<open>Startup validation\<close>

lemma sint_small: "0 \<le> v \<Longrightarrow> v < 2 ^ 63 \<Longrightarrow> sint (word_of_int v :: 64 word) = v"
  by (simp add: sint_sbintrunc' signed_take_bit_int_eq_self)

lemma sint_large: "2 ^ 63 \<le> v \<Longrightarrow> v \<le> 2 ^ 64 - 1 \<Longrightarrow> sint (word_of_int v :: 64 word) < 0"
proof -
  assume a: "2 ^ 63 \<le> v" "v \<le> 2 ^ 64 - 1"
  have "sint (word_of_int v :: 64 word) = signed_take_bit 63 v" by (simp add: sint_sbintrunc')
  also have "\<dots> \<le> v - 2 ^ Suc 63" using a(1) by (rule signed_take_bit_int_less_eq)
  also have "\<dots> < 0" using a(2) by simp
  finally show ?thesis .
qed

lemma sint_ULONG_MAX: "sint (word_of_int ULONG_MAX :: 64 word) = - 1"
  by (simp add: ULONG_MAX_def)

lemma isdigit_not_isspace: "isdigit c \<Longrightarrow> \<not> isspace c"
  by (auto simp: isdigit_def isspace_def)

lemma isdigit_not_sign: "isdigit c \<Longrightarrow> c \<noteq> CHR ''-'' \<and> c \<noteq> CHR ''+''"
  by (auto simp: isdigit_def)

lemma foldl_decimal_nonneg:
  "0 \<le> acc \<Longrightarrow> list_all isdigit ds \<Longrightarrow>
     0 \<le> foldl (\<lambda>acc c. 10 * acc + digit_value c) acc ds"
proof (induction ds arbitrary: acc)
  case Nil
  then show ?case by simp
next
  case (Cons d ds)
  then have "0 \<le> 10 * acc + digit_value d"
    by (simp add: isdigit_def digit_value_def)
  with Cons show ?case by simp
qed

lemma decimal_nonneg: "list_all isdigit ds \<Longrightarrow> 0 \<le> decimal ds"
  unfolding decimal_def by (rule foldl_decimal_nonneg) simp_all

lemma strtoul_numeral:
  assumes "s \<noteq> []" "list_all isdigit s"
  shows "strtoul s = (if decimal s > ULONG_MAX then word_of_int ULONG_MAX else word_of_int (decimal s))"
proof -
  from assms obtain c r where s: "s = c # r" by (cases s) auto
  with assms(2) have c: "isdigit c" by simp
  have dw: "dropWhile isspace s = s"
    using s isdigit_not_isspace [OF c] by simp
  have hd: "hd s \<noteq> CHR ''-''" "hd s \<noteq> CHR ''+''"
    using s isdigit_not_sign [OF c] by simp_all
  have tw: "takeWhile isdigit s = s"
    using assms(2) by (simp add: takeWhile_eq_all_conv list_all_iff)
  show ?thesis
    unfolding strtoul_def dw Let_def using hd assms(1) by (simp add: tw)
qed

lemma main_args_numeral:
  assumes "s \<noteq> []" "list_all isdigit s"
  shows "main_args [prog, s] =
     (if 1 \<le> decimal s \<and> decimal s \<le> 65535 then Proceed (word_of_int (decimal s))
      else Usage_Exit_Failure)"
proof -
  have nn: "0 \<le> decimal s" by (rule decimal_nonneg [OF assms(2)])
  consider (small) "decimal s < 2 ^ 63" | (large) "2 ^ 63 \<le> decimal s" "decimal s \<le> 2 ^ 64 - 1"
    | (over) "decimal s > ULONG_MAX"
    unfolding ULONG_MAX_def by linarith
  then show ?thesis
  proof cases
    case small
    then have "\<not> decimal s > ULONG_MAX" by (simp add: ULONG_MAX_def)
    then have "sint (strtoul s) = decimal s"
      using sint_small [OF nn small] by (simp add: strtoul_numeral [OF assms])
    then show ?thesis by (auto simp: main_args_def Let_def)
  next
    case large
    then have "\<not> decimal s > ULONG_MAX" by (simp add: ULONG_MAX_def)
    then have "sint (strtoul s) < 0"
      using sint_large [OF large] by (simp add: strtoul_numeral [OF assms])
    moreover have "\<not> decimal s \<le> 65535" using large(1) by simp
    ultimately show ?thesis by (auto simp: main_args_def Let_def)
  next
    case over
    then have "sint (strtoul s) = - 1"
      using sint_ULONG_MAX by (simp add: strtoul_numeral [OF assms])
    moreover have "\<not> decimal s \<le> 65535" using over by (simp add: ULONG_MAX_def)
    ultimately show ?thesis by (auto simp: main_args_def Let_def)
  qed
qed

text \<open>
  Claim C9, as the code has it. The process passes the startup check exactly when there
  is one positional argument and the number \<open>strtoul\<close> reads from it, taken as a signed
  \<open>long\<close>, lies in 1..65535; everything else prints the usage line and exits with failure.
  For an argument that is a plain decimal numeral this is the spec's condition: it is
  accepted, with its value as the port, exactly when the value lies in 1..65535.
\<close>

theorem main_args_accepts_by_strtoul_value:
  "(s \<noteq> [] \<and> list_all isdigit s \<longrightarrow>
      main_args [prog, s] =
        (if spec_port_argument s then Proceed (word_of_int (decimal s)) else Usage_Exit_Failure)) \<and>
   ((main_args argv \<noteq> Usage_Exit_Failure) =
      (length argv = 2 \<and> 1 \<le> sint (strtoul (argv ! 1)) \<and> sint (strtoul (argv ! 1)) \<le> 65535))"
proof (intro conjI impI)
  assume "s \<noteq> [] \<and> list_all isdigit s"
  then show "main_args [prog, s] =
        (if spec_port_argument s then Proceed (word_of_int (decimal s)) else Usage_Exit_Failure)"
    by (simp add: main_args_numeral spec_port_argument_def)
next
  show "(main_args argv \<noteq> Usage_Exit_Failure) =
      (length argv = 2 \<and> 1 \<le> sint (strtoul (argv ! 1)) \<and> sint (strtoul (argv ! 1)) \<le> 65535)"
    by (auto simp: main_args_def Let_def)
qed

theorem main_args_accepts_by_strtoul_value_witness:
  "''8080'' \<noteq> [] \<and> list_all isdigit ''8080'' \<and> spec_port_argument ''8080'' \<and>
   main_args [''server'', ''8080''] = Proceed 8080 \<and>
   ''70000'' \<noteq> [] \<and> list_all isdigit ''70000'' \<and> \<not> spec_port_argument ''70000'' \<and>
   main_args [''server'', ''70000''] = Usage_Exit_Failure"
proof -
  have h1: "''8080'' \<noteq> [] \<and> list_all isdigit ''8080''" by (simp add: isdigit_def)
  have h2: "''70000'' \<noteq> [] \<and> list_all isdigit ''70000''" by (simp add: isdigit_def)
  have v1: "decimal ''8080'' = 8080" by (simp add: decimal_def digit_value_def)
  have p1: "spec_port_argument ''8080''"
    by (simp add: spec_port_argument_def isdigit_def decimal_def digit_value_def)
  have p2: "\<not> spec_port_argument ''70000''"
    by (simp add: spec_port_argument_def isdigit_def decimal_def digit_value_def)
  from main_args_accepts_by_strtoul_value [of "''8080''" "''server''", THEN conjunct1, rule_format, OF h1] p1 v1
  have a: "main_args [''server'', ''8080''] = Proceed 8080" by simp
  from main_args_accepts_by_strtoul_value [of "''70000''" "''server''", THEN conjunct1, rule_format, OF h2] p2
  have b: "main_args [''server'', ''70000''] = Usage_Exit_Failure" by simp
  from h1 h2 p1 p2 a b show ?thesis by blast
qed

text \<open>
  The claim as stated fails: \<open>strtoul\<close> stops at the first character that is not a
  digit and \<open>main\<close> does not look at what follows, so the argument \<open>80abc\<close>, which is not
  a port number, is accepted as port 80.
\<close>

theorem main_args_accepts_trailing_text:
  "length [''server'', ''80abc''] = 2 \<and> main_args [''server'', ''80abc''] = Proceed 80 \<and>
   \<not> spec_port_argument ''80abc''"
  by (simp add: main_args_def strtoul_def isspace_def isdigit_def decimal_def digit_value_def
      ULONG_MAX_def spec_port_argument_def)

end
